theory Spec2Isabelle
  imports Main "HOL-Library.AList"
begin

section \<open>Values, resources and the object store\<close>

text \<open>
  The handlers of express-rested receive request bodies that were parsed from JSON, look
  resources up in a collection, call methods of the resource objects, ask the request
  context for rights decisions, and finally report one response through the callback
  \<^verbatim>\<open>cb\<close>. Resources are JavaScript objects: the collection holds references to
  them, and \<^verbatim>\<open>resource.edit(...)\<close> changes the object the collection refers to.
  The model therefore keeps an explicit store of objects, addressed by natural numbers,
  and a collection that maps identifiers to addresses.
\<close>

type_synonym addr = nat

text \<open>
  A request body as JavaScript sees it after JSON parsing. Numbers are kept as integers
  (no handler looks at the number itself, only at its truthiness and its
  \<^verbatim>\<open>typeof\<close>). An object lists its own enumerable properties in the order
  \<^verbatim>\<open>Object.keys\<close> reports them. A parsed body holds every name of the JSON text as
  an own property, the name \<^verbatim>\<open>__proto__\<close> included.
\<close>

datatype jsval =
    JUndefined
  | JNull
  | JBool bool
  | JNum int
  | JStr string
  | JArray "jsval list"
  | JObject "(string \<times> jsval) list"

fun truthy :: "jsval \<Rightarrow> bool" where
  "truthy JUndefined = False"
| "truthy JNull = False"
| "truthy (JBool b) = b"
| "truthy (JNum n) = (n \<noteq> 0)"
| "truthy (JStr s) = (s \<noteq> [])"
| "truthy (JArray xs) = True"
| "truthy (JObject kvs) = True"

fun typeof :: "jsval \<Rightarrow> string" where
  "typeof JUndefined = ''undefined''"
| "typeof JNull = ''object''"
| "typeof (JBool b) = ''boolean''"
| "typeof (JNum n) = ''number''"
| "typeof (JStr s) = ''string''"
| "typeof (JArray xs) = ''object''"
| "typeof (JObject kvs) = ''object''"

text \<open>The decimal name of an array index, as \<^verbatim>\<open>Object.keys\<close> reports it.\<close>

fun string_of_nat :: "nat \<Rightarrow> string" where
  "string_of_nat n =
     (if n < 10 then [''0123456789'' ! n]
      else string_of_nat (n div 10) @ [''0123456789'' ! (n mod 10)])"

text \<open>
  The own enumerable properties of a value: those of an object, and for an array its
  elements under their indices. Primitives never reach \<^verbatim>\<open>Object.keys\<close> in
  \<^verbatim>\<open>putAll\<close>, which rejects them first.
\<close>

fun own_entries :: "jsval \<Rightarrow> (string \<times> jsval) list" where
  "own_entries (JObject kvs) = kvs"
| "own_entries (JArray xs) = zip (map string_of_nat [0..<length xs]) xs"
| "own_entries _ = []"

definition object_keys :: "jsval \<Rightarrow> string list" where
  "object_keys d = map fst (own_entries d)"

text \<open>\<^verbatim>\<open>data[id]\<close>: the property's value, \<^verbatim>\<open>undefined\<close> when there is none.\<close>

definition prop_get :: "jsval \<Rightarrow> string \<Rightarrow> jsval" where
  "prop_get d k = (case map_of (own_entries d) k of None \<Rightarrow> JUndefined | Some v \<Rightarrow> v)"

text \<open>
  What \<^verbatim>\<open>resource.edit(info)\<close> does to a resource whose state is \<open>r\<close>: it returns
  normally and leaves the state \<open>Edited r'\<close>, or it throws, and then the object is in
  whatever state \<open>Threw r'\<close> the method left it in.
\<close>

datatype 'r edit_result = Edited 'r | Threw 'r

text \<open>
  The collaborators the handlers call, none of which is part of the handlers' own files:
  the request context (\<^verbatim>\<open>baseName\<close>, \<^verbatim>\<open>isJson\<close>, \<^verbatim>\<open>createCustomFn\<close>, the four
  rights decisions), the resource class (its constructor and \<^verbatim>\<open>edit\<close>) and the
  persistence function registered on the collection. They are parameters of the model.
  The rights decisions and the formatter lookup see the state of the resource object
  they are handed. \<open>persist ids\<close> is \<open>True\<close> when the persistence function reports
  an error for the identifiers \<open>ids\<close>.
\<close>

record ('r, 'f) env =
  baseName :: string
  isJson :: bool
  createCustomFn :: "string \<Rightarrow> 'r \<Rightarrow> 'f option"
  mayCreate :: "'r \<Rightarrow> bool"
  mayRead :: "'r \<Rightarrow> bool"
  mayUpdate :: "'r \<Rightarrow> bool"
  mayDelete :: "'r \<Rightarrow> bool"
  construct :: "string \<Rightarrow> jsval \<Rightarrow> 'r option"
  edit :: "'r \<Rightarrow> jsval \<Rightarrow> 'r edit_result"
  persist :: "string list \<Rightarrow> bool"

text \<open>The calls a handler makes on its collaborators, in the order it makes them.\<close>

datatype event =
    EvInstantiate string jsval
  | EvMayCreate addr
  | EvMayRead addr
  | EvMayUpdate addr
  | EvMayDelete addr
  | EvEdit addr jsval
  | EvCreateCustomFn string addr
  | EvInvokeCustomFn
  | EvSet string addr
  | EvSetAll "(string \<times> addr) list"
  | EvPersist "string list"

text \<open>
  The state: the object store \<open>heap\<close> with its next unused address \<open>fresh\<close>, the
  collection's map \<open>cmap\<close> from identifier to resource object (in the order
  \<^verbatim>\<open>Object.keys\<close> lists it), and the calls made so far.
\<close>

record 'r state =
  heap :: "addr \<Rightarrow> 'r"
  fresh :: addr
  cmap :: "(string \<times> addr) list"
  trace :: "event list"

definition record_event :: "event \<Rightarrow> 'r state \<Rightarrow> 'r state" where
  "record_event e s = s\<lparr>trace := trace s @ [e]\<rparr>"

text \<open>
  What a handler hands to \<^verbatim>\<open>cb\<close>: \<^verbatim>\<open>context.setStatus(n)\<close>,
  \<^verbatim>\<open>context.setStatus(n).setBody(resource)\<close>, \<^verbatim>\<open>context.disallow(resource)\<close>; or it
  returns the result of the custom function instead of calling \<^verbatim>\<open>cb\<close>.
\<close>

datatype 'f response =
    SetStatus nat
  | SetStatusBody nat addr
  | Disallow addr
  | CustomFn 'f

abbreviation NotFound :: "'f response" where "NotFound \<equiv> SetStatus 404"
abbreviation UnsupportedFormat :: "'f response" where "UnsupportedFormat \<equiv> SetStatus 415"
abbreviation BadRequest :: "'f response" where "BadRequest \<equiv> SetStatus 400"
abbreviation InternalError :: "'f response" where "InternalError \<equiv> SetStatus 500"
abbreviation NoContent :: "'f response" where "NoContent \<equiv> SetStatus 204"
abbreviation OK :: "addr \<Rightarrow> 'f response" where "OK a \<equiv> SetStatusBody 200 a"
abbreviation Forbidden :: "addr \<Rightarrow> 'f response" where "Forbidden a \<equiv> Disallow a"

section \<open>The collection\<close>

text \<open>
  Modelled from the spec: \<^verbatim>\<open>collection.get\<close> is not among the source files. The spec
  gives \<^verbatim>\<open>get(id) -> Resource | absent\<close>, with no side effects.
\<close>

definition collection_get :: "'r state \<Rightarrow> string \<Rightarrow> addr option" where
  "collection_get s i = map_of (cmap s) i"

text \<open>
  Modelled from the spec: \<^verbatim>\<open>collection.getMap\<close> is not among the source files. The
  spec gives \<^verbatim>\<open>getMap() -> copy of the mapping\<close>, a copy independent of the
  collection's own map.
\<close>

definition collection_getMap :: "'r state \<Rightarrow> (string \<times> addr) list" where
  "collection_getMap s = cmap s"

text \<open>
  Modelled from the spec: \<^verbatim>\<open>collection.instantiate\<close> is not among the source files.
  The spec gives \<^verbatim>\<open>instantiate(id, payload) -> Resource | failure\<close>, delegating to
  the resource class's constructor and failing when the constructor rejects the payload.
  A resource that was constructed is a new object, at a fresh address.
\<close>

definition collection_instantiate ::
  "('r, 'f) env \<Rightarrow> string \<Rightarrow> jsval \<Rightarrow> 'r state \<Rightarrow> addr option \<times> 'r state" where
  "collection_instantiate env i v s =
     (let s1 = record_event (EvInstantiate i v) s in
      case construct env i v of
        None \<Rightarrow> (None, s1)
      | Some r \<Rightarrow>
          (Some (fresh s1), s1\<lparr>heap := (heap s1)(fresh s1 := r), fresh := Suc (fresh s1)\<rparr>))"

text \<open>
  Modelled from the spec: \<^verbatim>\<open>collection.set\<close> is not among the source files. The spec
  gives \<^verbatim>\<open>set(id, resource)\<close>: it inserts or replaces a single entry, then invokes
  the persistence notifier with \<^verbatim>\<open>[id]\<close>; a failure of the notifier is reported to
  the caller and nothing is rolled back. The result is \<open>True\<close> when an error is reported.
\<close>

definition collection_set :: "('r, 'f) env \<Rightarrow> string \<Rightarrow> addr \<Rightarrow> 'r state \<Rightarrow> bool \<times> 'r state" where
  "collection_set env i a s =
     (let s1 = record_event (EvSet i a) s;
          s2 = s1\<lparr>cmap := AList.update i a (cmap s1)\<rparr>;
          s3 = record_event (EvPersist [i]) s2
      in (persist env [i], s3))"

text \<open>
  Modelled from the spec: \<^verbatim>\<open>collection.setAll\<close> is not among the source files. The
  spec gives \<^verbatim>\<open>setAll(resources)\<close>: it replaces the entire collection with exactly
  the given mapping, then invokes the persistence notifier with the identifiers affected
  (created, updated and deleted): here the identifiers of the new mapping followed by
  those only the old mapping had.
\<close>

definition affected_ids :: "(string \<times> addr) list \<Rightarrow> (string \<times> addr) list \<Rightarrow> string list" where
  "affected_ids old new =
     map fst new @ filter (\<lambda>i. i \<notin> set (map fst new)) (map fst old)"

definition collection_setAll ::
  "('r, 'f) env \<Rightarrow> (string \<times> addr) list \<Rightarrow> 'r state \<Rightarrow> bool \<times> 'r state" where
  "collection_setAll env resources s =
     (let s1 = record_event (EvSetAll resources) s;
          ids = affected_ids (cmap s1) resources;
          s2 = s1\<lparr>cmap := resources\<rparr>;
          s3 = record_event (EvPersist ids) s2
      in (persist env ids, s3))"

text \<open>
  \<^verbatim>\<open>resource.edit(info)\<close> on the object at address \<open>a\<close>: the object's state is
  replaced in the store, and the result tells whether the method returned normally.
\<close>

definition resource_edit :: "('r, 'f) env \<Rightarrow> addr \<Rightarrow> jsval \<Rightarrow> 'r state \<Rightarrow> bool \<times> 'r state" where
  "resource_edit env a v s =
     (let s1 = record_event (EvEdit a v) s in
      case edit env (heap s1 a) v of
        Edited r \<Rightarrow> (True, s1\<lparr>heap := (heap s1)(a := r)\<rparr>)
      | Threw r \<Rightarrow> (False, s1\<lparr>heap := (heap s1)(a := r)\<rparr>))"

section \<open>The handlers\<close>

subsection \<open>Item GET\<close>

definition resource_get :: "('r, 'f) env \<Rightarrow> 'r state \<Rightarrow> 'f response \<times> 'r state" where
  "resource_get env s =
     (let i = baseName env in
      case collection_get s i of
        None \<Rightarrow> (SetStatus 404, s)
      | Some a \<Rightarrow>
          if \<not> isJson env then
            (let s1 = record_event (EvCreateCustomFn ''get'' a) s in
             case createCustomFn env ''get'' (heap s1 a) of
               None \<Rightarrow> (SetStatus 415, s1)
             | Some f \<Rightarrow> (CustomFn f, record_event EvInvokeCustomFn s1))
          else
            (let s1 = record_event (EvMayRead a) s in
             if \<not> mayRead env (heap s1 a) then (Disallow a, s1)
             else (SetStatusBody 200 a, s1)))"

subsection \<open>Item PATCH\<close>

definition resource_patch ::
  "('r, 'f) env \<Rightarrow> jsval \<Rightarrow> 'r state \<Rightarrow> 'f response \<times> 'r state" where
  "resource_patch env obj s =
     (let i = baseName env in
      case collection_get s i of
        None \<Rightarrow> (SetStatus 404, s)
      | Some a \<Rightarrow>
          if \<not> isJson env then
            (let s1 = record_event (EvCreateCustomFn ''patch'' a) s in
             case createCustomFn env ''patch'' (heap s1 a) of
               None \<Rightarrow> (SetStatus 415, s1)
             | Some f \<Rightarrow> (CustomFn f, record_event EvInvokeCustomFn s1))
          else
            (let s1 = record_event (EvMayUpdate a) s in
             if \<not> mayUpdate env (heap s1 a) then (Disallow a, s1)
             else
               (case resource_edit env a obj s1 of
                  (False, s2) \<Rightarrow> (SetStatus 400, s2)
                | (True, s2) \<Rightarrow>
                    (case collection_set env i a s2 of
                       (True, s3) \<Rightarrow> (SetStatus 500, s3)
                     | (False, s3) \<Rightarrow> (SetStatus 204, s3)))))"

subsection \<open>Collection PUT\<close>

text \<open>
  \<^verbatim>\<open>resources[id] = resource\<close> on the plain object \<^verbatim>\<open>resources = {}\<close>. For every
  name but one the assignment overwrites the own property of that name or adds one. The
  name \<^verbatim>\<open>__proto__\<close> is an accessor inherited from \<^verbatim>\<open>Object.prototype\<close>: assigning an
  object to it replaces the prototype of \<^verbatim>\<open>resources\<close> and adds no own property, so
  the keys of \<^verbatim>\<open>resources\<close> stay as they were. (Once a resource object is the
  prototype, a later assignment still adds an own property as long as that resource has
  no accessor or read-only property of the same name, which is taken for granted here.)
\<close>

definition object_assign ::
  "string \<Rightarrow> addr \<Rightarrow> (string \<times> addr) list \<Rightarrow> (string \<times> addr) list" where
  "object_assign k a m = (if k = ''__proto__'' then m else AList.update k a m)"

text \<open>
  The first loop of \<^verbatim>\<open>putAll\<close>, over the payload's identifiers. It returns early with
  a response, or ends with the map \<^verbatim>\<open>resources\<close> it has built and what is left of
  \<^verbatim>\<open>toDelete\<close>; \<^verbatim>\<open>delete toDelete[id]\<close> removes the own property of that name.
\<close>

fun putAll_items ::
  "('r, 'f) env \<Rightarrow> jsval \<Rightarrow> string list \<Rightarrow> (string \<times> addr) list \<Rightarrow> (string \<times> addr) list \<Rightarrow>
   'r state \<Rightarrow> ('f response \<times> 'r state) + ((string \<times> addr) list \<times> (string \<times> addr) list \<times> 'r state)"
  where
  "putAll_items env data [] resources toDelete s = Inr (resources, toDelete, s)"
| "putAll_items env data (i # ids) resources toDelete s =
     (case collection_get s i of
        None \<Rightarrow>
          (case collection_instantiate env i (prop_get data i) s of
             (None, s1) \<Rightarrow> Inl (SetStatus 400, s1)
           | (Some a, s1) \<Rightarrow>
               (let s2 = record_event (EvMayCreate a) s1 in
                if \<not> mayCreate env (heap s2 a) then Inl (Disallow a, s2)
                else putAll_items env data ids (object_assign i a resources) toDelete s2))
      | Some a \<Rightarrow>
          (let s1 = record_event (EvMayUpdate a) s in
           if \<not> mayUpdate env (heap s1 a) then Inl (Disallow a, s1)
           else
             (case resource_edit env a (prop_get data i) s1 of
                (False, s2) \<Rightarrow> Inl (SetStatus 400, s2)
              | (True, s2) \<Rightarrow>
                  putAll_items env data ids (object_assign i a resources)
                    (AList.delete i toDelete) s2)))"

text \<open>
  The second loop. \<^verbatim>\<open>deleteIds\<close> are the keys of what is left of \<^verbatim>\<open>toDelete\<close> and
  \<^verbatim>\<open>toDelete[deleteIds[i]]\<close> is the value under the \<open>i\<close>-th key, so the loop visits the
  entries in order and asks for the right to delete each resource. \<open>None\<close> means that
  every entry passed.
\<close>

fun putAll_deletes ::
  "('r, 'f) env \<Rightarrow> (string \<times> addr) list \<Rightarrow> 'r state \<Rightarrow> ('f response) option \<times> 'r state" where
  "putAll_deletes env [] s = (None, s)"
| "putAll_deletes env ((i, a) # rest) s =
     (let s1 = record_event (EvMayDelete a) s in
      if \<not> mayDelete env (heap s1 a) then (Some (Disallow a), s1)
      else putAll_deletes env rest s1)"

definition putAll :: "('r, 'f) env \<Rightarrow> jsval \<Rightarrow> 'r state \<Rightarrow> 'f response \<times> 'r state" where
  "putAll env data s =
     (if \<not> truthy data \<or> typeof data \<noteq> ''object'' then (SetStatus 400, s)
      else
        (let ids = object_keys data;
             toDelete = collection_getMap s
         in case putAll_items env data ids [] toDelete s of
              Inl out \<Rightarrow> out
            | Inr (resources, toDelete', s1) \<Rightarrow>
                (case putAll_deletes env toDelete' s1 of
                   (Some r, s2) \<Rightarrow> (r, s2)
                 | (None, s2) \<Rightarrow>
                     (case collection_setAll env resources s2 of
                        (True, s3) \<Rightarrow> (SetStatus 500, s3)
                      | (False, s3) \<Rightarrow> (SetStatus 204, s3)))))"

section \<open>Vocabulary of the properties\<close>

text \<open>The arguments of the calls to \<^verbatim>\<open>collection.setAll\<close> in a trace, in order.\<close>

fun setAll_calls :: "event list \<Rightarrow> (string \<times> addr) list list" where
  "setAll_calls [] = []"
| "setAll_calls (EvSetAll m # es) = m # setAll_calls es"
| "setAll_calls (e # es) = setAll_calls es"

text \<open>The identifier lists the persistence function was notified of in a trace, in order.\<close>

fun persist_calls :: "event list \<Rightarrow> string list list" where
  "persist_calls [] = []"
| "persist_calls (EvPersist ids # es) = ids # persist_calls es"
| "persist_calls (e # es) = persist_calls es"

text \<open>
  The calls a handler has added to the trace, and the objects whose \<^verbatim>\<open>edit\<close> was called
  among them.
\<close>

definition new_events :: "'r state \<Rightarrow> 'r state \<Rightarrow> event list" where
  "new_events s s' = drop (length (trace s)) (trace s')"

fun edits_of :: "event list \<Rightarrow> addr list" where
  "edits_of [] = []"
| "edits_of (EvEdit a v # es) = a # edits_of es"
| "edits_of (e # es) = edits_of es"

text \<open>
  The observable state of the collection: for each identifier, the state of the resource
  stored under it, if any.
\<close>

definition resource_at :: "'r state \<Rightarrow> string \<Rightarrow> 'r option" where
  "resource_at s i = map_option (heap s) (collection_get s i)"

text \<open>
  A state as the library produces it: identifiers are the keys of one JavaScript object
  and so distinct, each identifier has a resource object of its own, and every object a
  reference points to has been allocated.
\<close>

definition wf_state :: "'r state \<Rightarrow> bool" where
  "wf_state s \<longleftrightarrow>
     distinct (map fst (cmap s)) \<and> distinct (map snd (cmap s)) \<and>
     list_all (\<lambda>(i, a). a < fresh s) (cmap s)"

text \<open>
  The specification's words for collection PUT. An identifier of the payload passes its per-item
  processing in state \<open>s\<close>: when it is absent from the collection, instantiation succeeds
  and creation is authorized for the new resource; when it is present, update is
  authorized for the stored resource and the edit returns normally.
\<close>

definition item_ok :: "('r, 'f) env \<Rightarrow> 'r state \<Rightarrow> jsval \<Rightarrow> string \<Rightarrow> bool" where
  "item_ok env s data i =
     (case collection_get s i of
        None \<Rightarrow>
          (case construct env i (prop_get data i) of
             None \<Rightarrow> False
           | Some r \<Rightarrow> mayCreate env r)
      | Some a \<Rightarrow>
          mayUpdate env (heap s a) \<and>
          (case edit env (heap s a) (prop_get data i) of Edited r \<Rightarrow> True | Threw r \<Rightarrow> False))"

text \<open>
  Why an identifier of the payload fails its per-item processing: its payload is
  rejected (by the constructor or by the edit), or the right to create or update is
  denied. The checks are in the order the handler makes them.
\<close>

datatype fault = Invalid | Denied

definition item_fault :: "('r, 'f) env \<Rightarrow> 'r state \<Rightarrow> jsval \<Rightarrow> string \<Rightarrow> fault option" where
  "item_fault env s data i =
     (case collection_get s i of
        None \<Rightarrow>
          (case construct env i (prop_get data i) of
             None \<Rightarrow> Some Invalid
           | Some r \<Rightarrow> if mayCreate env r then None else Some Denied)
      | Some a \<Rightarrow>
          if \<not> mayUpdate env (heap s a) then Some Denied
          else (case edit env (heap s a) (prop_get data i) of
                  Edited r \<Rightarrow> None
                | Threw r \<Rightarrow> Some Invalid))"

text \<open>
  The answer that goes with a fault: BadRequest for a rejected payload, Forbidden for a
  denied right.
\<close>

fun answers_fault :: "fault \<Rightarrow> 'f response \<Rightarrow> bool" where
  "answers_fault Invalid out = (out = SetStatus 400)"
| "answers_fault Denied out = (case out of Disallow a \<Rightarrow> True | _ \<Rightarrow> False)"

text \<open>
  Every identifier of the collection that the payload does not name passes the
  delete-authorization.
\<close>

definition deletes_ok :: "('r, 'f) env \<Rightarrow> 'r state \<Rightarrow> jsval \<Rightarrow> bool" where
  "deletes_ok env s data =
     list_all (\<lambda>(i, a). i \<in> set (object_keys data) \<or> mayDelete env (heap s a)) (cmap s)"

text \<open>
  The state a successful collection PUT leaves under an identifier of the payload: the
  constructed resource when the identifier was absent, the edited one when it was present.
\<close>

definition put_result :: "('r, 'f) env \<Rightarrow> 'r state \<Rightarrow> jsval \<Rightarrow> string \<Rightarrow> 'r option" where
  "put_result env s data i =
     (case collection_get s i of
        None \<Rightarrow> construct env i (prop_get data i)
      | Some a \<Rightarrow>
          (case edit env (heap s a) (prop_get data i) of
             Edited r \<Rightarrow> Some r
           | Threw r \<Rightarrow> None))"

text \<open>The state in which the first loop of \<^verbatim>\<open>putAll\<close> stops.\<close>

fun items_state ::
  "('f response \<times> 'r state) + ((string \<times> addr) list \<times> (string \<times> addr) list \<times> 'r state) \<Rightarrow> 'r state"
  where
  "items_state (Inl (out, s)) = s"
| "items_state (Inr (resources, toDelete, s)) = s"

text \<open>
  The decision sequence of item GET in the words of the specification, which names no
  outcome for a request in a non-default representation whose formatter exists.
\<close>

definition get_claimed :: "('r, 'f) env \<Rightarrow> 'r state \<Rightarrow> 'f response" where
  "get_claimed env s =
     (case collection_get s (baseName env) of
        None \<Rightarrow> NotFound
      | Some a \<Rightarrow>
          if \<not> isJson env \<and> createCustomFn env ''get'' (heap s a) = None then UnsupportedFormat
          else if \<not> mayRead env (heap s a) then Forbidden a
          else OK a)"

text \<open>
  The payload shape in the words of the specification: a mapping from identifier to
  per-resource payload, which a JSON array or a primitive is not.
\<close>

fun is_id_mapping :: "jsval \<Rightarrow> bool" where
  "is_id_mapping (JObject kvs) = True"
| "is_id_mapping _ = False"

text \<open>A value that is neither an object nor an array.\<close>

fun is_primitive :: "jsval \<Rightarrow> bool" where
  "is_primitive (JObject kvs) = False"
| "is_primitive (JArray xs) = False"
| "is_primitive _ = True"

subsection \<open>A sample resource class and collection\<close>

text \<open>
  A resource that holds one number: the constructor and \<^verbatim>\<open>edit\<close> accept a numeric
  payload and throw on anything else, leaving the resource as it was.
\<close>

definition sample_edit :: "int \<Rightarrow> jsval \<Rightarrow> int edit_result" where
  "sample_edit r v = (case v of JNum n \<Rightarrow> Edited n | _ \<Rightarrow> Threw r)"

definition sample_construct :: "string \<Rightarrow> jsval \<Rightarrow> int option" where
  "sample_construct i v = (case v of JNum n \<Rightarrow> Some n | _ \<Rightarrow> None)"

text \<open>
  A JSON request for the item \<^verbatim>\<open>a\<close> with every right granted, no custom formatter and
  a persistence function that succeeds.
\<close>

definition sample_env :: "(int, string) env" where
  "sample_env = \<lparr> baseName = ''a'', isJson = True, createCustomFn = (\<lambda>k r. None),
     mayCreate = (\<lambda>r. True), mayRead = (\<lambda>r. True), mayUpdate = (\<lambda>r. True),
     mayDelete = (\<lambda>r. True), construct = sample_construct, edit = sample_edit,
     persist = (\<lambda>ids. False) \<rparr>"

text \<open>The collection \<^verbatim>\<open>{a: 1, b: 2}\<close>.\<close>

definition sample_state :: "int state" where
  "sample_state = \<lparr> heap = (\<lambda>a. 0)(0 := 1, 1 := 2), fresh = 2,
     cmap = [(''a'', 0), (''b'', 1)], trace = [] \<rparr>"

text \<open>
  Payloads for collection PUT: \<^verbatim>\<open>{b: 3, c: 4}\<close>, \<^verbatim>\<open>{a: 10, b: 20}\<close>,
  \<^verbatim>\<open>{c: 4, b: 20}\<close> and the array \<^verbatim>\<open>[3, 4]\<close>.
\<close>

definition sample_payload :: jsval where
  "sample_payload = JObject [(''b'', JNum 3), (''c'', JNum 4)]"

definition update_payload :: jsval where
  "update_payload = JObject [(''a'', JNum 10), (''b'', JNum 20)]"

definition denied_payload :: jsval where
  "denied_payload = JObject [(''c'', JNum 4), (''b'', JNum 20)]"

definition array_payload :: jsval where
  "array_payload = JArray [JNum 3, JNum 4]"

text \<open>The payload \<^verbatim>\<open>{"__proto__": 5}\<close>, as parsed from JSON.\<close>

definition proto_payload :: jsval where
  "proto_payload = JObject [(''__proto__'', JNum 5)]"

text \<open>The sample request where the resource holding 2 may not be updated.\<close>

definition guarded_env :: "(int, string) env" where
  "guarded_env = sample_env\<lparr>mayUpdate := (\<lambda>r. r \<noteq> 2)\<rparr>"

text \<open>The sample request with a persistence function that always reports an error.\<close>

definition failing_env :: "(int, string) env" where
  "failing_env = sample_env\<lparr>persist := (\<lambda>ids. True)\<rparr>"

text \<open>
  The sample request in a non-default representation, with a formatter registered for
  every resource; \<open>locked_html_env\<close> moreover grants no right to read or update.
\<close>

definition html_env :: "(int, string) env" where
  "html_env = sample_env\<lparr>isJson := False, createCustomFn := (\<lambda>k r. Some k)\<rparr>"

definition locked_html_env :: "(int, string) env" where
  "locked_html_env = html_env\<lparr>mayRead := (\<lambda>r. False), mayUpdate := (\<lambda>r. False)\<rparr>"

text \<open>The sample request for an identifier the collection does not hold.\<close>

definition missing_env :: "(int, string) env" where
  "missing_env = sample_env\<lparr>baseName := ''zz''\<rparr>"

section \<open>Basic facts about the operations\<close>

lemmas run_defs = putAll_def object_assign_def object_keys_def prop_get_def collection_getMap_def collection_get_def
  collection_instantiate_def collection_setAll_def resource_edit_def record_event_def
  affected_ids_def resource_at_def

lemma setAll_calls_append [simp]: "setAll_calls (xs @ ys) = setAll_calls xs @ setAll_calls ys"
  by (induction xs rule: setAll_calls.induct) simp_all

lemma persist_calls_append [simp]:
  "persist_calls (xs @ ys) = persist_calls xs @ persist_calls ys"
  by (induction xs rule: persist_calls.induct) simp_all

lemma edits_of_append [simp]: "edits_of (xs @ ys) = edits_of xs @ edits_of ys"
  by (induction xs rule: edits_of.induct) simp_all

lemma map_of_object_assign:
  "map_of (object_assign k a m) j =
     (if k = ''__proto__'' then map_of m j else ((map_of m)(k \<mapsto> a)) j)"
  by (simp add: object_assign_def update_conv')

lemma dom_object_assign:
  "fst ` set (object_assign k a m) =
     (if k = ''__proto__'' then fst ` set m else insert k (fst ` set m))"
  by (simp add: object_assign_def dom_update)

lemma record_event_simps [simp]:
  "heap (record_event e s) = heap s"
  "fresh (record_event e s) = fresh s"
  "cmap (record_event e s) = cmap s"
  "trace (record_event e s) = trace s @ [e]"
  by (simp_all add: record_event_def)

lemma collection_get_record_event [simp]:
  "collection_get (record_event e s) i = collection_get s i"
  by (simp add: collection_get_def)

lemma instantiate_None:
  "collection_instantiate env i v s = (None, s1) \<Longrightarrow>
     construct env i v = None \<and> s1 = record_event (EvInstantiate i v) s"
  by (auto simp: collection_instantiate_def Let_def split: option.splits)

lemma instantiate_Some:
  "collection_instantiate env i v s = (Some a, s1) \<Longrightarrow>
     a = fresh s \<and> (\<exists>r. construct env i v = Some r \<and> heap s1 = (heap s)(fresh s := r)) \<and>
     fresh s1 = Suc (fresh s) \<and> cmap s1 = cmap s \<and> trace s1 = trace s @ [EvInstantiate i v]"
  by (auto simp: collection_instantiate_def Let_def split: option.splits)

lemma resource_edit_result:
  "resource_edit env a v s = (ok, s1) \<Longrightarrow>
     (\<exists>r. edit env (heap s a) v = (if ok then Edited r else Threw r) \<and> heap s1 = (heap s)(a := r)) \<and>
     fresh s1 = fresh s \<and> cmap s1 = cmap s \<and> trace s1 = trace s @ [EvEdit a v]"
  by (auto simp: resource_edit_def Let_def split: edit_result.splits)

subsection \<open>What the first loop of collection PUT leaves alone\<close>

lemma putAll_items_cmap:
  "cmap (items_state (putAll_items env data ids res td s)) = cmap s"
proof (induction ids arbitrary: res td s)
  case Nil
  show ?case by simp
next
  case (Cons i ids)
  show ?case
    by (auto simp: Cons.IH Let_def split: option.splits prod.splits bool.splits
        dest!: instantiate_None instantiate_Some resource_edit_result)
qed

lemma putAll_items_fresh:
  "fresh s \<le> fresh (items_state (putAll_items env data ids res td s))"
proof (induction ids arbitrary: res td s)
  case Nil
  show ?case by simp
next
  case (Cons i ids)
  have step: "\<And>res td s1. fresh s \<le> fresh s1 \<Longrightarrow>
      fresh s \<le> fresh (items_state (putAll_items env data ids res td s1))"
    using Cons.IH le_trans by blast
  show ?case
    by (auto simp: Let_def split: option.splits prod.splits bool.splits
        dest!: instantiate_None instantiate_Some resource_edit_result intro!: step)
qed

lemma putAll_items_calls:
  "setAll_calls (trace (items_state (putAll_items env data ids res td s))) = setAll_calls (trace s)"
proof (induction ids arbitrary: res td s)
  case Nil
  show ?case by simp
next
  case (Cons i ids)
  show ?case
    by (auto simp: Cons.IH Let_def split: option.splits prod.splits bool.splits
        dest!: instantiate_None instantiate_Some resource_edit_result)
qed

lemma putAll_items_persist:
  "persist_calls (trace (items_state (putAll_items env data ids res td s)))
     = persist_calls (trace s)"
proof (induction ids arbitrary: res td s)
  case Nil
  show ?case by simp
next
  case (Cons i ids)
  show ?case
    by (auto simp: Cons.IH Let_def split: option.splits prod.splits bool.splits
        dest!: instantiate_None instantiate_Some resource_edit_result)
qed

text \<open>
  The loop writes only to objects stored under the payload's identifiers and to objects
  it has created itself.
\<close>

lemma putAll_items_heap:
  "a < fresh s \<Longrightarrow> \<forall>i \<in> set ids. collection_get s i \<noteq> Some a \<Longrightarrow>
     heap (items_state (putAll_items env data ids res td s)) a = heap s a"
proof (induction ids arbitrary: res td s)
  case Nil
  show ?case by simp
next
  case (Cons i ids)
  have step: "\<And>res td s1. cmap s1 = cmap s \<Longrightarrow> fresh s \<le> fresh s1 \<Longrightarrow>
      heap (items_state (putAll_items env data ids res td s1)) a = heap s1 a"
  proof -
    fix res td and s1 :: "'a state"
    assume c: "cmap s1 = cmap s" and f: "fresh s \<le> fresh s1"
    have "a < fresh s1" using Cons.prems(1) f by simp
    moreover have "\<forall>i \<in> set ids. collection_get s1 i \<noteq> Some a"
      using Cons.prems(2) c by (simp add: collection_get_def)
    ultimately show "heap (items_state (putAll_items env data ids res td s1)) a = heap s1 a"
      by (rule Cons.IH)
  qed
  from Cons.prems have na: "collection_get s i \<noteq> Some a" by simp
  show ?case
  proof (cases "collection_get s i")
    case None
    then show ?thesis using Cons.prems(1)
      by (auto simp: Let_def step split: option.splits prod.splits bool.splits
          dest!: instantiate_None instantiate_Some)
  next
    case (Some b)
    with na have "b \<noteq> a" by simp
    then show ?thesis using Some
      by (auto simp: Let_def step split: option.splits prod.splits bool.splits
          dest!: resource_edit_result)
  qed
qed

text \<open>
  One round of the loop either stops with a response or goes on to the rest of the
  identifiers; either way it has modified no object whose edit it has not called.
\<close>

lemma putAll_items_step:
  obtains (stop) out s1 evs where
      "putAll_items env data (i # ids) res td s = Inl (out, s1)"
      "trace s1 = trace s @ evs"
      "\<forall>a. a < fresh s \<and> a \<notin> set (edits_of evs) \<longrightarrow> heap s1 a = heap s a"
  | (go) res' td' s1 evs where
      "putAll_items env data (i # ids) res td s = putAll_items env data ids res' td' s1"
      "trace s1 = trace s @ evs" "fresh s \<le> fresh s1"
      "\<forall>a. a < fresh s \<and> a \<notin> set (edits_of evs) \<longrightarrow> heap s1 a = heap s a"
proof (cases "collection_get s i")
  case None
  let ?v = "prop_get data i"
  let ?s1 = "record_event (EvInstantiate i ?v) s"
  show thesis
  proof (cases "construct env i ?v")
    case N: None
    show thesis
      by (rule stop [of BadRequest ?s1 "[EvInstantiate i ?v]"])
         (simp_all add: None N collection_instantiate_def)
  next
    case (Some r)
    let ?s2 = "record_event (EvMayCreate (fresh s))
                 (?s1\<lparr>heap := (heap s)(fresh s := r), fresh := Suc (fresh s)\<rparr>)"
    let ?evs = "[EvInstantiate i ?v, EvMayCreate (fresh s)]"
    show thesis
    proof (cases "mayCreate env r")
      case True
      show thesis
        by (rule go [of "object_assign i (fresh s) res" td ?s2 ?evs])
           (simp_all add: None Some True collection_instantiate_def)
    next
      case False
      show thesis
        by (rule stop [of "Forbidden (fresh s)" ?s2 ?evs])
           (simp_all add: None Some False collection_instantiate_def)
    qed
  qed
next
  case (Some b)
  let ?v = "prop_get data i"
  let ?s1 = "record_event (EvMayUpdate b) s"
  show thesis
  proof (cases "mayUpdate env (heap s b)")
    case False
    show thesis
      by (rule stop [of "Forbidden b" ?s1 "[EvMayUpdate b]"]) (simp_all add: Some False)
  next
    case True
    let ?evs = "[EvMayUpdate b, EvEdit b ?v]"
    show thesis
    proof (cases "edit env (heap s b) ?v")
      case (Edited r)
      let ?s2 = "(record_event (EvEdit b ?v) ?s1)\<lparr>heap := (heap s)(b := r)\<rparr>"
      show thesis
        by (rule go [of "object_assign i b res" "AList.delete i td" ?s2 ?evs])
           (simp_all add: Some True Edited resource_edit_def)
    next
      case (Threw r)
      let ?s2 = "(record_event (EvEdit b ?v) ?s1)\<lparr>heap := (heap s)(b := r)\<rparr>"
      show thesis
        by (rule stop [of BadRequest ?s2 ?evs])
           (simp_all add: Some True Threw resource_edit_def)
    qed
  qed
qed

lemma putAll_items_edits:
  "\<exists>es. trace (items_state (putAll_items env data ids res td s)) = trace s @ es
       \<and> (\<forall>a. a < fresh s \<and> a \<notin> set (edits_of es) \<longrightarrow>
             heap (items_state (putAll_items env data ids res td s)) a = heap s a)"
proof (induction ids arbitrary: res td s)
  case Nil
  show ?case by simp
next
  case (Cons i ids)
  show ?case
  proof (cases rule: putAll_items_step [of env data i ids res td s])
    case (stop out s1 evs)
    then show ?thesis by (intro exI [of _ evs]) simp
  next
    case (go res' td' s1 evs)
    from Cons.IH [of res' td' s1] obtain es where
      e: "trace (items_state (putAll_items env data ids res' td' s1)) = trace s1 @ es"
      and k: "\<forall>a. a < fresh s1 \<and> a \<notin> set (edits_of es) \<longrightarrow>
                heap (items_state (putAll_items env data ids res' td' s1)) a = heap s1 a"
      by blast
    show ?thesis
      unfolding go(1) using e k go(2,3,4) by (intro exI [of _ "evs @ es"]) auto
  qed
qed

subsection \<open>What the first loop builds\<close>

lemma putAll_items_Inr_keys:
  "putAll_items env data ids res td s = Inr (res', td', s') \<Longrightarrow>
     fst ` set res' = fst ` set res \<union> (set ids - {''__proto__''})"
proof (induction ids arbitrary: res td s)
  case Nil
  then show ?case by simp
next
  case (Cons i ids)
  from Cons.prems obtain a td1 s1 where
    "putAll_items env data ids (object_assign i a res) td1 s1 = Inr (res', td', s')"
    by (auto simp: Let_def split: option.splits prod.splits bool.splits if_splits)
  from Cons.IH [OF this] show ?case
    by (auto simp: dom_object_assign split: if_splits)
qed

lemma putAll_items_Inr_toDelete:
  "putAll_items env data ids res td s = Inr (res', td', s') \<Longrightarrow>
     td' = filter (\<lambda>p. \<not> (fst p \<in> set ids \<and> collection_get s (fst p) \<noteq> None)) td"
proof (induction ids arbitrary: res td s)
  case Nil
  then show ?case by simp
next
  case (Cons i ids)
  show ?case
  proof (cases "collection_get s i")
    case None
    with Cons.prems obtain a s1 where
      inst: "collection_instantiate env i (prop_get data i) s = (Some a, s1)"
      and rest: "putAll_items env data ids (object_assign i a res) td
                   (record_event (EvMayCreate a) s1) = Inr (res', td', s')"
      by (auto simp: Let_def split: option.splits prod.splits if_splits)
    from inst have c: "cmap s1 = cmap s" by (auto dest: instantiate_Some)
    have g: "\<And>k. collection_get (record_event (EvMayCreate a) s1) k = collection_get s k"
      using c by (simp add: collection_get_def)
    from Cons.IH [OF rest] show ?thesis unfolding g using None
      by (auto intro!: filter_cong)
  next
    case (Some a)
    with Cons.prems obtain s2 where
      ed: "resource_edit env a (prop_get data i) (record_event (EvMayUpdate a) s) = (True, s2)"
      and rest: "putAll_items env data ids (object_assign i a res) (AList.delete i td) s2
                   = Inr (res', td', s')"
      by (auto simp: Let_def split: option.splits prod.splits if_splits bool.splits)
    from ed have c: "cmap s2 = cmap s" by (auto dest: resource_edit_result)
    have g: "\<And>k. collection_get s2 k = collection_get s k"
      using c by (simp add: collection_get_def)
    from Cons.IH [OF rest] show ?thesis unfolding g using Some
      by (auto simp: AList.delete_eq intro!: filter_cong)
  qed
qed

lemma putAll_deletes_frame:
  "putAll_deletes env td s = (r, s') \<Longrightarrow>
     heap s' = heap s \<and> cmap s' = cmap s \<and> fresh s' = fresh s \<and>
     setAll_calls (trace s') = setAll_calls (trace s) \<and>
     persist_calls (trace s') = persist_calls (trace s)"
  by (induction env td s rule: putAll_deletes.induct)
     (auto simp: Let_def split: if_splits)

lemma putAll_deletes_edits:
  "putAll_deletes env td s = (r, s') \<Longrightarrow> \<exists>es. trace s' = trace s @ es \<and> edits_of es = []"
proof (induction env td s rule: putAll_deletes.induct)
  case (1 env s)
  then show ?case by simp
next
  case (2 env i a rest s)
  show ?case
  proof (cases "mayDelete env (heap s a)")
    case True
    with "2.prems" have "putAll_deletes env rest (record_event (EvMayDelete a) s) = (r, s')"
      by (simp add: Let_def)
    from "2.IH" [OF refl _ this] True obtain es where
      "trace s' = trace s @ EvMayDelete a # es" "edits_of es = []" by auto
    then show ?thesis by (intro exI [of _ "EvMayDelete a # es"]) simp
  next
    case False
    with "2.prems" show ?thesis by (intro exI [of _ "[EvMayDelete a]"]) (auto simp: Let_def)
  qed
qed

lemma putAll_deletes_None:
  "fst (putAll_deletes env td s) = None \<longleftrightarrow> list_all (\<lambda>(i, a). mayDelete env (heap s a)) td"
  by (induction env td s rule: putAll_deletes.induct)
     (auto simp: Let_def split: if_splits)

lemma putAll_deletes_Some:
  "putAll_deletes env td s = (Some r, s') \<Longrightarrow> \<exists>a. r = Disallow a"
  by (induction env td s rule: putAll_deletes.induct)
     (auto simp: Let_def split: if_splits)

subsection \<open>Well-formed states\<close>

lemma wf_state_lt: "wf_state s \<Longrightarrow> collection_get s i = Some a \<Longrightarrow> a < fresh s"
  by (auto simp: wf_state_def collection_get_def list_all_iff dest!: map_of_SomeD)

lemma wf_state_inj:
  assumes "wf_state s" and "collection_get s i = Some a" and "collection_get s j = Some a"
  shows "i = j"
proof -
  from assms(1) have "inj_on snd (set (cmap s))"
    by (simp add: wf_state_def distinct_map)
  moreover from assms(2,3) have "(i, a) \<in> set (cmap s)" and "(j, a) \<in> set (cmap s)"
    by (auto simp: collection_get_def dest: map_of_SomeD)
  ultimately have "(i, a) = (j, a)"
    by (intro inj_onD [of snd "set (cmap s)"]) simp_all
  then show ?thesis by simp
qed

lemma wf_state_mono: "wf_state s \<Longrightarrow> cmap s1 = cmap s \<Longrightarrow> fresh s \<le> fresh s1 \<Longrightarrow> wf_state s1"
  by (auto simp: wf_state_def list_all_iff)

lemma item_ok_cong:
  "cmap s1 = cmap s \<Longrightarrow> (\<And>a. collection_get s i = Some a \<Longrightarrow> heap s1 a = heap s a) \<Longrightarrow>
     item_ok env s1 data i = item_ok env s data i"
  by (auto simp: item_ok_def collection_get_def split: option.splits)

lemma put_result_cong:
  "cmap s1 = cmap s \<Longrightarrow> (\<And>a. collection_get s i = Some a \<Longrightarrow> heap s1 a = heap s a) \<Longrightarrow>
     put_result env s1 data i = put_result env s data i"
  by (auto simp: put_result_def collection_get_def split: option.splits)

lemma putAll_items_Cons_ok:
  assumes "wf_state s" and "item_ok env s data i"
  shows "\<exists>a s2. putAll_items env data (i # ids) res td s =
             putAll_items env data ids (object_assign i a res)
               (if collection_get s i = None then td else AList.delete i td) s2
         \<and> cmap s2 = cmap s \<and> fresh s \<le> fresh s2 \<and> a < fresh s2
         \<and> (collection_get s i = None \<longrightarrow> a = fresh s)
         \<and> (collection_get s i \<noteq> None \<longrightarrow> collection_get s i = Some a)
         \<and> Some (heap s2 a) = put_result env s data i
         \<and> (\<forall>b. b \<noteq> a \<longrightarrow> heap s2 b = heap s b)"
proof (cases "collection_get s i")
  case None
  with assms(2) obtain r where r: "construct env i (prop_get data i) = Some r" "mayCreate env r"
    by (auto simp: item_ok_def split: option.splits)
  let ?s1 = "record_event (EvInstantiate i (prop_get data i)) s"
  let ?s2 = "record_event (EvMayCreate (fresh s))
               (?s1\<lparr>heap := (heap ?s1)(fresh ?s1 := r), fresh := Suc (fresh ?s1)\<rparr>)"
  show ?thesis
    using None r
    by (intro exI [of _ "fresh s"] exI [of _ ?s2])
       (simp add: collection_instantiate_def Let_def put_result_def)
next
  case (Some a)
  with assms(2) obtain r where r: "mayUpdate env (heap s a)"
      "edit env (heap s a) (prop_get data i) = Edited r"
    by (auto simp: item_ok_def split: edit_result.splits)
  from assms(1) Some have "a < fresh s" by (rule wf_state_lt)
  let ?s1 = "record_event (EvEdit a (prop_get data i)) (record_event (EvMayUpdate a) s)"
  let ?s2 = "?s1\<lparr>heap := (heap ?s1)(a := r)\<rparr>"
  from \<open>a < fresh s\<close> show ?thesis
    using Some r
    by (intro exI [of _ a] exI [of _ ?s2])
       (simp add: resource_edit_def Let_def put_result_def)
qed

lemma putAll_items_Cons_fail:
  assumes "\<not> item_ok env s data i"
  shows "\<exists>out s'. putAll_items env data (i # ids) res td s = Inl (out, s')"
  using assms
  by (auto simp: item_ok_def collection_instantiate_def resource_edit_def Let_def
      split: option.splits edit_result.splits)

lemma putAll_items_Inl_outcome:
  "putAll_items env data ids res td s = Inl (out, s') \<Longrightarrow>
     out = BadRequest \<or> (\<exists>a. out = Disallow a)"
proof (induction ids arbitrary: res td s)
  case Nil
  then show ?case by simp
next
  case (Cons i ids)
  from Cons.prems show ?case
    by (auto simp: Let_def split: option.splits prod.splits bool.splits if_splits
        dest: Cons.IH)
qed

lemma putAll_items_fails:
  assumes "wf_state s" and "distinct ids" and "\<not> list_all (item_ok env s data) ids"
  shows "\<exists>out s'. putAll_items env data ids res td s = Inl (out, s')"
  using assms
proof (induction ids arbitrary: res td s)
  case Nil
  then show ?case by simp
next
  case (Cons i ids)
  show ?case
  proof (cases "item_ok env s data i")
    case False
    then show ?thesis by (rule putAll_items_Cons_fail)
  next
    case True
    from putAll_items_Cons_ok [OF Cons.prems(1) True, of ids res td]
    obtain a s2 where
      eq: "putAll_items env data (i # ids) res td s =
             putAll_items env data ids (object_assign i a res)
               (if collection_get s i = None then td else AList.delete i td) s2"
      and c: "cmap s2 = cmap s" and f: "fresh s \<le> fresh s2"
      and new: "collection_get s i = None \<longrightarrow> a = fresh s"
      and old: "collection_get s i \<noteq> None \<longrightarrow> collection_get s i = Some a"
      and h: "\<forall>b. b \<noteq> a \<longrightarrow> heap s2 b = heap s b"
      by (elim exE conjE) (rule that)
    have wf2: "wf_state s2" using Cons.prems(1) c f by (rule wf_state_mono)
    have same: "item_ok env s2 data j = item_ok env s data j" if j: "j \<in> set ids" for j
    proof (rule item_ok_cong [OF c])
      fix b assume b: "collection_get s j = Some b"
      have "b \<noteq> a"
      proof
        assume "b = a"
        show False
        proof (cases "collection_get s i")
          case None
          with new \<open>b = a\<close> have "b = fresh s" by simp
          with wf_state_lt [OF Cons.prems(1) b] show False by simp
        next
          case (Some a')
          with old have "collection_get s i = Some a" by simp
          with b \<open>b = a\<close> have "i = j" using wf_state_inj [OF Cons.prems(1)] by blast
          with j Cons.prems(2) show False by simp
        qed
      qed
      then show "heap s2 b = heap s b" using h by simp
    qed
    from Cons.prems(3) True have "\<not> list_all (item_ok env s data) ids" by simp
    then have "\<not> list_all (item_ok env s2 data) ids"
      using same by (simp add: list_all_iff)
    from Cons.IH [OF wf2 _ this] Cons.prems(2) show ?thesis
      unfolding eq by simp
  qed
qed

lemma putAll_items_succeeds:
  assumes "wf_state s" and "distinct ids" and "list_all (item_ok env s data) ids"
  shows "\<exists>res' td' s'. putAll_items env data ids res td s = Inr (res', td', s')
         \<and> (\<forall>i \<in> set ids. i \<noteq> ''__proto__'' \<longrightarrow>
               (\<exists>a. map_of res' i = Some a \<and> Some (heap s' a) = put_result env s data i))
         \<and> (\<forall>i. i \<notin> set ids \<or> i = ''__proto__'' \<longrightarrow> map_of res' i = map_of res i)"
  using assms
proof (induction ids arbitrary: res td s)
  case Nil
  then show ?case by simp
next
  case (Cons i ids)
  from Cons.prems(3) have ok: "item_ok env s data i" by simp
  let ?td = "if collection_get s i = None then td else AList.delete i td"
  from putAll_items_Cons_ok [OF Cons.prems(1) ok, of ids res td]
  obtain a s2 where
    eq: "putAll_items env data (i # ids) res td s =
           putAll_items env data ids (object_assign i a res) ?td s2"
    and c: "cmap s2 = cmap s" and f: "fresh s \<le> fresh s2" and lt: "a < fresh s2"
    and new: "collection_get s i = None \<longrightarrow> a = fresh s"
    and old: "collection_get s i \<noteq> None \<longrightarrow> collection_get s i = Some a"
    and val: "Some (heap s2 a) = put_result env s data i"
    and h: "\<forall>b. b \<noteq> a \<longrightarrow> heap s2 b = heap s b"
    by (elim exE conjE) (rule that)
  have wf2: "wf_state s2" using Cons.prems(1) c f by (rule wf_state_mono)
  have other: "b \<noteq> a" if j: "j \<in> set ids" and b: "collection_get s j = Some b" for j b
  proof
    assume "b = a"
    show False
    proof (cases "collection_get s i")
      case None
      with new \<open>b = a\<close> have "b = fresh s" by simp
      with wf_state_lt [OF Cons.prems(1) b] show False by simp
    next
      case (Some a')
      with old have "collection_get s i = Some a" by simp
      with b \<open>b = a\<close> have "i = j" using wf_state_inj [OF Cons.prems(1)] by blast
      with j Cons.prems(2) show False by simp
    qed
  qed
  have same_ok: "item_ok env s2 data j = item_ok env s data j" if "j \<in> set ids" for j
    using other [OF that] h by (intro item_ok_cong [OF c]) simp
  have same_res: "put_result env s2 data j = put_result env s data j" if "j \<in> set ids" for j
    using other [OF that] h by (intro put_result_cong [OF c]) simp
  from Cons.prems(3) have "list_all (item_ok env s2 data) ids"
    using same_ok by (simp add: list_all_iff)
  with Cons.IH [OF wf2, of "object_assign i a res" ?td] Cons.prems(2)
  obtain res' td' s' where
    r: "putAll_items env data ids (object_assign i a res) ?td s2 = Inr (res', td', s')"
    and vals: "\<forall>j \<in> set ids. j \<noteq> ''__proto__'' \<longrightarrow>
                 (\<exists>b. map_of res' j = Some b \<and> Some (heap s' b) = put_result env s2 data j)"
    and rest: "\<forall>j. j \<notin> set ids \<or> j = ''__proto__'' \<longrightarrow>
                 map_of res' j = map_of (object_assign i a res) j"
    by auto
  have untouched: "heap s' a = heap s2 a"
  proof -
    have "\<forall>j \<in> set ids. collection_get s2 j \<noteq> Some a"
      using other c by (auto simp: collection_get_def)
    from putAll_items_heap [OF lt this, of env data "object_assign i a res" ?td]
    show ?thesis by (simp add: r)
  qed
  have head: "map_of res' i = Some a" if "i \<noteq> ''__proto__''"
    using rest Cons.prems(2) that by (simp add: map_of_object_assign)
  have "\<forall>j \<in> set (i # ids). j \<noteq> ''__proto__'' \<longrightarrow>
          (\<exists>b. map_of res' j = Some b \<and> Some (heap s' b) = put_result env s data j)"
    using vals same_res head untouched val by auto
  moreover have "\<forall>j. j \<notin> set (i # ids) \<or> j = ''__proto__'' \<longrightarrow> map_of res' j = map_of res j"
    using rest by (auto simp: map_of_object_assign)
  ultimately show ?case
    unfolding eq using r by blast
qed

lemma item_ok_fault: "item_ok env s data i \<longleftrightarrow> item_fault env s data i = None"
  by (auto simp: item_ok_def item_fault_def split: option.splits edit_result.splits)

lemma item_fault_cong:
  "cmap s1 = cmap s \<Longrightarrow> (\<And>a. collection_get s i = Some a \<Longrightarrow> heap s1 a = heap s a) \<Longrightarrow>
     item_fault env s1 data i = item_fault env s data i"
  by (auto simp: item_fault_def collection_get_def split: option.splits)

lemma putAll_items_Cons_fault:
  assumes "item_fault env s data i = Some f"
  shows "\<exists>out s'. putAll_items env data (i # ids) res td s = Inl (out, s') \<and> answers_fault f out"
  using assms
  by (auto simp: item_fault_def collection_instantiate_def resource_edit_def Let_def
      split: option.splits edit_result.splits if_splits)

lemma putAll_items_first_fault:
  assumes "wf_state s" and "distinct ids"
    and "find (\<lambda>i. \<not> item_ok env s data i) ids = Some i"
    and "item_fault env s data i = Some f"
  shows "\<exists>out s'. putAll_items env data ids res td s = Inl (out, s') \<and> answers_fault f out"
  using assms
proof (induction ids arbitrary: res td s)
  case Nil
  then show ?case by simp
next
  case (Cons j ids)
  show ?case
  proof (cases "item_ok env s data j")
    case False
    with Cons.prems(3) have "j = i" by simp
    with Cons.prems(4) have "item_fault env s data j = Some f" by simp
    then show ?thesis by (rule putAll_items_Cons_fault)
  next
    case True
    from putAll_items_Cons_ok [OF Cons.prems(1) True, of ids res td]
    obtain a s2 where
      eq: "putAll_items env data (j # ids) res td s =
             putAll_items env data ids (object_assign j a res)
               (if collection_get s j = None then td else AList.delete j td) s2"
      and c: "cmap s2 = cmap s" and fr: "fresh s \<le> fresh s2"
      and new: "collection_get s j = None \<longrightarrow> a = fresh s"
      and old: "collection_get s j \<noteq> None \<longrightarrow> collection_get s j = Some a"
      and h: "\<forall>b. b \<noteq> a \<longrightarrow> heap s2 b = heap s b"
      by (elim exE conjE) (rule that)
    have wf2: "wf_state s2" using Cons.prems(1) c fr by (rule wf_state_mono)
    have other: "b \<noteq> a" if k: "k \<in> set ids" and b: "collection_get s k = Some b" for k b
    proof
      assume "b = a"
      show False
      proof (cases "collection_get s j")
        case None
        with new \<open>b = a\<close> have "b = fresh s" by simp
        with wf_state_lt [OF Cons.prems(1) b] show False by simp
      next
        case (Some a')
        with old have "collection_get s j = Some a" by simp
        with b \<open>b = a\<close> have "j = k" using wf_state_inj [OF Cons.prems(1)] by blast
        with k Cons.prems(2) show False by simp
      qed
    qed
    have same_ok: "item_ok env s2 data k = item_ok env s data k" if "k \<in> set ids" for k
      using other [OF that] h by (intro item_ok_cong [OF c]) simp
    from Cons.prems(3) True have fi: "find (\<lambda>i. \<not> item_ok env s data i) ids = Some i" by simp
    then have mem: "i \<in> set ids" by (auto simp: find_Some_iff)
    have "find (\<lambda>i. \<not> item_ok env s2 data i) ids = find (\<lambda>i. \<not> item_ok env s data i) ids"
      using same_ok by (intro find_cong refl) simp
    with fi have fi2: "find (\<lambda>i. \<not> item_ok env s2 data i) ids = Some i" by simp
    have "item_fault env s2 data i = item_fault env s data i"
      using other [OF mem] h by (intro item_fault_cong [OF c]) simp
    with Cons.prems(4) have ff: "item_fault env s2 data i = Some f" by simp
    from Cons.IH [OF wf2 _ fi2 ff] Cons.prems(2) show ?thesis
      unfolding eq by simp
  qed
qed

subsection \<open>The whole handler\<close>

lemma collection_setAll_result:
  "collection_setAll env m s = (err, s') \<Longrightarrow>
     err = persist env (affected_ids (cmap s) m) \<and> cmap s' = m \<and> heap s' = heap s \<and>
     fresh s' = fresh s \<and>
     trace s' = trace s @ [EvSetAll m, EvPersist (affected_ids (cmap s) m)]"
  by (auto simp: collection_setAll_def Let_def)

lemma toDelete_after_items:
  assumes "putAll_items env data ids res (cmap s) s = Inr (res', td', s')"
  shows "td' = filter (\<lambda>p. fst p \<notin> set ids) (cmap s)"
proof -
  have "collection_get s (fst p) \<noteq> None" if "p \<in> set (cmap s)" for p
  proof -
    from that have "(fst p, snd p) \<in> set (cmap s)" by simp
    from weak_map_of_SomeI [OF this] show ?thesis by (simp add: collection_get_def)
  qed
  then have "filter (\<lambda>p. \<not> (fst p \<in> set ids \<and> collection_get s (fst p) \<noteq> None)) (cmap s)
      = filter (\<lambda>p. fst p \<notin> set ids) (cmap s)"
    by (intro filter_cong refl) blast
  with putAll_items_Inr_toDelete [OF assms] show ?thesis by simp
qed

lemma delete_candidates_untouched:
  assumes "wf_state s" and "(k, a) \<in> set (cmap s)" and "k \<notin> set ids"
  shows "heap (items_state (putAll_items env data ids res td s)) a = heap s a"
proof (rule putAll_items_heap)
  from assms(1,2) have k: "collection_get s k = Some a"
    by (simp add: wf_state_def collection_get_def)
  then show "a < fresh s" using assms(1) by (simp add: wf_state_lt)
  show "\<forall>i \<in> set ids. collection_get s i \<noteq> Some a"
  proof
    fix i assume "i \<in> set ids"
    with assms(3) have "i \<noteq> k" by auto
    then show "collection_get s i \<noteq> Some a"
      using wf_state_inj [OF assms(1) _ k] by blast
  qed
qed

lemma deletes_ok_after_items:
  assumes "wf_state s"
    and "putAll_items env data ids res (cmap s) s = Inr (res', td', s')"
  shows "list_all (\<lambda>(i, a). mayDelete env (heap s' a)) td' \<longleftrightarrow>
         list_all (\<lambda>(i, a). i \<in> set ids \<or> mayDelete env (heap s a)) (cmap s)"
proof -
  have "heap s' a = heap s a" if "(k, a) \<in> set (cmap s)" and "k \<notin> set ids" for k a
    using delete_candidates_untouched [OF assms(1) that, of env data res "cmap s"]
    by (simp add: assms(2))
  then have "mayDelete env (heap s' a) = mayDelete env (heap s a)"
    if "(k, a) \<in> set (cmap s)" and "k \<notin> set ids" for k a
    using that by simp
  then show ?thesis
    unfolding toDelete_after_items [OF assms(2)] list_all_iff by fastforce
qed

lemma putAll_success:
  assumes wf: "wf_state s" and shape: "truthy data" "typeof data = ''object''"
    and dist: "distinct (object_keys data)"
    and items: "list_all (item_ok env s data) (object_keys data)"
    and dels: "deletes_ok env s data"
  shows "\<exists>m s'. putAll env data s =
           (if persist env (affected_ids (cmap s) m) then InternalError else NoContent, s')
         \<and> cmap s' = m \<and> fst ` set m = set (object_keys data) - {''__proto__''}
         \<and> setAll_calls (trace s') = setAll_calls (trace s) @ [m]
         \<and> persist_calls (trace s') = persist_calls (trace s) @ [affected_ids (cmap s) m]
         \<and> (\<forall>i \<in> set (object_keys data). i \<noteq> ''__proto__'' \<longrightarrow>
               resource_at s' i = put_result env s data i)"
proof -
  from putAll_items_succeeds [OF wf dist items, of "[]" "cmap s"]
  obtain m td' s1 where
    it: "putAll_items env data (object_keys data) [] (cmap s) s = Inr (m, td', s1)"
    and vals: "\<forall>i \<in> set (object_keys data). i \<noteq> ''__proto__'' \<longrightarrow>
                 (\<exists>a. map_of m i = Some a \<and> Some (heap s1 a) = put_result env s data i)"
    by (elim exE conjE) (rule that)
  from putAll_items_Inr_keys [OF it]
  have keys: "fst ` set m = set (object_keys data) - {''__proto__''}" by simp
  from putAll_items_cmap [of env data "object_keys data" "[]" "cmap s" s]
  have c1: "cmap s1 = cmap s" by (simp add: it)
  from putAll_items_calls [of env data "object_keys data" "[]" "cmap s" s]
  have t1: "setAll_calls (trace s1) = setAll_calls (trace s)" by (simp add: it)
  from putAll_items_persist [of env data "object_keys data" "[]" "cmap s" s]
  have p1: "persist_calls (trace s1) = persist_calls (trace s)" by (simp add: it)
  obtain r s2 where d: "putAll_deletes env td' s1 = (r, s2)" by (cases "putAll_deletes env td' s1")
  have "fst (putAll_deletes env td' s1) = None"
    unfolding putAll_deletes_None deletes_ok_after_items [OF wf it]
    using dels by (simp add: deletes_ok_def)
  with d have r: "r = None" by simp
  from putAll_deletes_frame [OF d]
  have f2: "heap s2 = heap s1" "cmap s2 = cmap s1"
    "setAll_calls (trace s2) = setAll_calls (trace s1)"
    "persist_calls (trace s2) = persist_calls (trace s1)" by simp_all
  obtain err s3 where sa: "collection_setAll env m s2 = (err, s3)"
    by (cases "collection_setAll env m s2")
  from collection_setAll_result [OF sa]
  have f3: "err = persist env (affected_ids (cmap s) m)" "cmap s3 = m" "heap s3 = heap s1"
    "trace s3 = trace s2 @ [EvSetAll m, EvPersist (affected_ids (cmap s) m)]"
    by (simp_all add: f2 c1)
  have out: "putAll env data s =
      (if persist env (affected_ids (cmap s) m) then InternalError else NoContent, s3)"
    using shape it d r sa f3(1) by (simp add: putAll_def collection_getMap_def)
  have "\<forall>i \<in> set (object_keys data). i \<noteq> ''__proto__'' \<longrightarrow>
          resource_at s3 i = put_result env s data i"
    using vals f3(2,3) by (auto simp: resource_at_def collection_get_def)
  then show ?thesis
    using out keys f3 f2 t1 p1 by (intro exI [of _ m] exI [of _ s3]) simp
qed

lemma putAll_failure:
  assumes wf: "wf_state s" and shape: "truthy data" "typeof data = ''object''"
    and dist: "distinct (object_keys data)"
    and bad: "\<not> (list_all (item_ok env s data) (object_keys data) \<and> deletes_ok env s data)"
  shows "setAll_calls (trace (snd (putAll env data s))) = setAll_calls (trace s)
       \<and> (fst (putAll env data s) = BadRequest \<or> (\<exists>a. fst (putAll env data s) = Forbidden a))"
proof (cases "list_all (item_ok env s data) (object_keys data)")
  case False
  from putAll_items_fails [OF wf dist False, of "[]" "cmap s"]
  obtain out s' where
    it: "putAll_items env data (object_keys data) [] (cmap s) s = Inl (out, s')" by blast
  from putAll_items_calls [of env data "object_keys data" "[]" "cmap s" s]
  have "setAll_calls (trace s') = setAll_calls (trace s)" by (simp add: it)
  moreover from putAll_items_Inl_outcome [OF it]
  have "out = BadRequest \<or> (\<exists>a. out = Disallow a)" .
  moreover have "putAll env data s = (out, s')"
    using shape it by (simp add: putAll_def collection_getMap_def)
  ultimately show ?thesis by simp
next
  case True
  with bad have nd: "\<not> deletes_ok env s data" by simp
  from putAll_items_succeeds [OF wf dist True, of "[]" "cmap s"]
  obtain m td' s1 where
    it: "putAll_items env data (object_keys data) [] (cmap s) s = Inr (m, td', s1)"
    by blast
  from putAll_items_calls [of env data "object_keys data" "[]" "cmap s" s]
  have t1: "setAll_calls (trace s1) = setAll_calls (trace s)" by (simp add: it)
  obtain r s2 where d: "putAll_deletes env td' s1 = (r, s2)" by (cases "putAll_deletes env td' s1")
  have "fst (putAll_deletes env td' s1) \<noteq> None"
    unfolding putAll_deletes_None deletes_ok_after_items [OF wf it]
    using nd by (simp add: deletes_ok_def)
  with d obtain out where r: "r = Some out" by auto
  from putAll_deletes_Some [OF d [unfolded r]] have "\<exists>a. out = Disallow a" .
  moreover from putAll_deletes_frame [OF d]
  have "setAll_calls (trace s2) = setAll_calls (trace s)" by (simp add: t1)
  moreover have "putAll env data s = (out, s2)"
    using shape it d r by (simp add: putAll_def collection_getMap_def)
  ultimately show ?thesis by simp
qed

lemma putAll_first_fault:
  assumes wf: "wf_state s" and shape: "truthy data" "typeof data = ''object''"
    and dist: "distinct (object_keys data)"
    and fi: "find (\<lambda>i. \<not> item_ok env s data i) (object_keys data) = Some i"
    and fa: "item_fault env s data i = Some f"
  shows "answers_fault f (fst (putAll env data s))"
proof -
  from putAll_items_first_fault [OF wf dist fi fa, of "[]" "cmap s"]
  obtain out s' where
    it: "putAll_items env data (object_keys data) [] (cmap s) s = Inl (out, s')"
    and a: "answers_fault f out" by blast
  have "putAll env data s = (out, s')"
    using shape it by (simp add: putAll_def collection_getMap_def)
  with a show ?thesis by simp
qed

lemma putAll_delete_denied:
  assumes wf: "wf_state s" and shape: "truthy data" "typeof data = ''object''"
    and dist: "distinct (object_keys data)"
    and items: "list_all (item_ok env s data) (object_keys data)"
    and nd: "\<not> deletes_ok env s data"
  shows "\<exists>a. fst (putAll env data s) = Forbidden a"
proof -
  from putAll_items_succeeds [OF wf dist items, of "[]" "cmap s"]
  obtain m td' s1 where
    it: "putAll_items env data (object_keys data) [] (cmap s) s = Inr (m, td', s1)"
    by blast
  obtain r s2 where d: "putAll_deletes env td' s1 = (r, s2)" by (cases "putAll_deletes env td' s1")
  have "fst (putAll_deletes env td' s1) \<noteq> None"
    unfolding putAll_deletes_None deletes_ok_after_items [OF wf it]
    using nd by (simp add: deletes_ok_def)
  with d obtain out where r: "r = Some out" by auto
  from putAll_deletes_Some [OF d [unfolded r]] have "\<exists>a. out = Disallow a" .
  moreover have "putAll env data s = (out, s2)"
    using shape it d r by (simp add: putAll_def collection_getMap_def)
  ultimately show ?thesis by simp
qed

lemma putAll_error_frame:
  assumes "fst (putAll env data s) \<noteq> NoContent" and "fst (putAll env data s) \<noteq> InternalError"
  shows "cmap (snd (putAll env data s)) = cmap s
       \<and> fresh s \<le> fresh (snd (putAll env data s))
       \<and> setAll_calls (trace (snd (putAll env data s))) = setAll_calls (trace s)
       \<and> (\<forall>a. a < fresh s \<and> (\<forall>i \<in> set (object_keys data). collection_get s i \<noteq> Some a) \<longrightarrow>
            heap (snd (putAll env data s)) a = heap s a)"
proof (cases "\<not> truthy data \<or> typeof data \<noteq> ''object''")
  case True
  then show ?thesis by (auto simp: putAll_def)
next
  case False
  let ?it = "putAll_items env data (object_keys data) [] (cmap s) s"
  have c: "cmap (items_state ?it) = cmap s" by (rule putAll_items_cmap)
  have f: "fresh s \<le> fresh (items_state ?it)" by (rule putAll_items_fresh)
  have t: "setAll_calls (trace (items_state ?it)) = setAll_calls (trace s)"
    by (rule putAll_items_calls)
  have h: "\<forall>a. a < fresh s \<and> (\<forall>i \<in> set (object_keys data). collection_get s i \<noteq> Some a) \<longrightarrow>
            heap (items_state ?it) a = heap s a"
    by (simp add: putAll_items_heap)
  show ?thesis
  proof (cases ?it)
    case (Inl p)
    then obtain out s' where p: "?it = Inl (out, s')" by (cases p) simp
    have "putAll env data s = (out, s')"
      using False p by (simp add: putAll_def collection_getMap_def)
    then show ?thesis using c f t h by (simp add: p)
  next
    case (Inr q)
    then obtain m td' s1 where q: "?it = Inr (m, td', s1)" by (cases q) auto
    obtain r s2 where d: "putAll_deletes env td' s1 = (r, s2)"
      by (cases "putAll_deletes env td' s1")
    show ?thesis
    proof (cases r)
      case None
      obtain err s3 where sa: "collection_setAll env m s2 = (err, s3)"
        by (cases "collection_setAll env m s2")
      have "fst (putAll env data s) = (if err then InternalError else NoContent)"
        using False q d None sa by (simp add: putAll_def collection_getMap_def)
      with assms show ?thesis by (simp split: if_splits)
    next
      case (Some out)
      have "putAll env data s = (out, s2)"
        using False q d Some by (simp add: putAll_def collection_getMap_def)
      then show ?thesis
        using c f t h putAll_deletes_frame [OF d] by (simp add: q)
    qed
  qed
qed

lemma putAll_error_edits:
  assumes "fst (putAll env data s) \<noteq> NoContent" and "fst (putAll env data s) \<noteq> InternalError"
  shows "\<forall>a. a < fresh s \<and> a \<notin> set (edits_of (new_events s (snd (putAll env data s)))) \<longrightarrow>
            heap (snd (putAll env data s)) a = heap s a"
proof (cases "\<not> truthy data \<or> typeof data \<noteq> ''object''")
  case True
  then show ?thesis by (auto simp: putAll_def)
next
  case False
  let ?it = "putAll_items env data (object_keys data) [] (cmap s) s"
  from putAll_items_edits [of env data "object_keys data" "[]" "cmap s" s]
  obtain es where
    t: "trace (items_state ?it) = trace s @ es"
    and h: "\<forall>a. a < fresh s \<and> a \<notin> set (edits_of es) \<longrightarrow> heap (items_state ?it) a = heap s a"
    by blast
  show ?thesis
  proof (cases ?it)
    case (Inl p)
    then obtain out s' where p: "?it = Inl (out, s')" by (cases p) simp
    have "putAll env data s = (out, s')"
      using False p by (simp add: putAll_def collection_getMap_def)
    then show ?thesis using t h by (simp add: p new_events_def)
  next
    case (Inr q)
    then obtain m td' s1 where q: "?it = Inr (m, td', s1)" by (cases q) auto
    obtain r s2 where d: "putAll_deletes env td' s1 = (r, s2)"
      by (cases "putAll_deletes env td' s1")
    show ?thesis
    proof (cases r)
      case None
      obtain err s3 where sa: "collection_setAll env m s2 = (err, s3)"
        by (cases "collection_setAll env m s2")
      have "fst (putAll env data s) = (if err then InternalError else NoContent)"
        using False q d None sa by (simp add: putAll_def collection_getMap_def)
      with assms show ?thesis by (simp split: if_splits)
    next
      case (Some out)
      have o: "putAll env data s = (out, s2)"
        using False q d Some by (simp add: putAll_def collection_getMap_def)
      from putAll_deletes_edits [OF d] obtain es2 where
        "trace s2 = trace s1 @ es2" "edits_of es2 = []" by blast
      then show ?thesis
        using t h putAll_deletes_frame [OF d] by (simp add: o q new_events_def)
    qed
  qed
qed

lemma putAll_items_trace:
  "length (trace s) \<le> length (trace (items_state (putAll_items env data ids res td s)))"
proof (induction ids arbitrary: res td s)
  case Nil
  show ?case by simp
next
  case (Cons i ids)
  have step: "\<And>res td s1. length (trace s) \<le> length (trace s1) \<Longrightarrow>
      length (trace s) \<le> length (trace (items_state (putAll_items env data ids res td s1)))"
    using Cons.IH le_trans by blast
  show ?case
    by (auto simp: Let_def split: option.splits prod.splits bool.splits
        dest!: instantiate_None instantiate_Some resource_edit_result intro!: step)
qed

lemma putAll_items_Inl_trace:
  "putAll_items env data ids res td s = Inl (out, s') \<Longrightarrow> length (trace s) < length (trace s')"
proof (induction ids arbitrary: res td s)
  case Nil
  then show ?case by simp
next
  case (Cons i ids)
  have step: "\<And>res td s1. length (trace s) \<le> length (trace s1) \<Longrightarrow>
      putAll_items env data ids res td s1 = Inl (out, s') \<Longrightarrow> length (trace s) < length (trace s')"
    using Cons.IH less_le_trans le_less_trans by blast
  from Cons.prems show ?case
    by (auto simp: Let_def split: option.splits prod.splits bool.splits if_splits
        dest!: instantiate_None instantiate_Some resource_edit_result elim!: step [rotated])
qed

lemma putAll_deletes_trace:
  "putAll_deletes env td s = (r, s') \<Longrightarrow> length (trace s) \<le> length (trace s')"
proof (induction env td s rule: putAll_deletes.induct)
  case (1 env s)
  then show ?case by simp
next
  case (2 env i a rest s)
  then show ?case by (auto simp: Let_def split: if_splits)
qed

lemma putAll_deletes_Some_trace:
  "putAll_deletes env td s = (Some r, s') \<Longrightarrow> length (trace s) < length (trace s')"
proof (induction env td s rule: putAll_deletes.induct)
  case (1 env s)
  then show ?case by simp
next
  case (2 env i a rest s)
  show ?case
  proof (cases "mayDelete env (heap s a)")
    case True
    with "2.prems" have "putAll_deletes env rest (record_event (EvMayDelete a) s) = (Some r, s')"
      by (simp add: Let_def)
    from putAll_deletes_trace [OF this] show ?thesis by simp
  next
    case False
    with "2.prems" show ?thesis by (auto simp: Let_def)
  qed
qed

lemma putAll_passes_shape_check:
  assumes "truthy data" and "typeof data = ''object''"
  shows "length (trace s) < length (trace (snd (putAll env data s)))"
proof (cases "putAll_items env data (object_keys data) [] (cmap s) s")
  case (Inl p)
  then obtain out s' where p: "putAll_items env data (object_keys data) [] (cmap s) s = Inl (out, s')"
    by (cases p) simp
  have "putAll env data s = (out, s')"
    using assms p by (simp add: putAll_def collection_getMap_def)
  with putAll_items_Inl_trace [OF p] show ?thesis by simp
next
  case (Inr q)
  then obtain m td' s1 where
    q: "putAll_items env data (object_keys data) [] (cmap s) s = Inr (m, td', s1)"
    by (cases q) auto
  from putAll_items_trace [of s env data "object_keys data" "[]" "cmap s"]
  have t1: "length (trace s) \<le> length (trace s1)" by (simp add: q)
  obtain r s2 where d: "putAll_deletes env td' s1 = (r, s2)"
    by (cases "putAll_deletes env td' s1")
  note t2 = putAll_deletes_trace [OF d]
  show ?thesis
  proof (cases r)
    case None
    obtain err s3 where sa: "collection_setAll env m s2 = (err, s3)"
      by (cases "collection_setAll env m s2")
    have "snd (putAll env data s) = s3"
      using assms q d None sa by (simp add: putAll_def collection_getMap_def split: bool.splits)
    with collection_setAll_result [OF sa] t1 t2 show ?thesis by simp
  next
    case (Some out)
    with d have "length (trace s1) < length (trace s2)"
      by (simp add: putAll_deletes_Some_trace)
    moreover have "putAll env data s = (out, s2)"
      using assms q d Some by (simp add: putAll_def collection_getMap_def)
    ultimately show ?thesis using t1 by simp
  qed
qed


section \<open>Item GET and item PATCH\<close>

text \<open>
  C2. On a JSON request the item PATCH handler answers NotFound when the identifier is
  absent; else Forbidden when update is not authorized for the resource; else BadRequest
  when the resource's edit throws; else it commits through \<^verbatim>\<open>collection.set\<close> and
  answers InternalError when the persistence callback reports an error and NoContent
  otherwise. The calls it makes stop at the step that decides the answer.
\<close>

theorem patch_json_sequence:
  assumes "isJson env"
  shows "fst (resource_patch env obj s) =
           (case collection_get s (baseName env) of
              None \<Rightarrow> NotFound
            | Some a \<Rightarrow>
                if \<not> mayUpdate env (heap s a) then Forbidden a
                else (case edit env (heap s a) obj of
                        Threw r \<Rightarrow> BadRequest
                      | Edited r \<Rightarrow>
                          if persist env [baseName env] then InternalError else NoContent))
       \<and> trace (snd (resource_patch env obj s)) = trace s @
           (case collection_get s (baseName env) of
              None \<Rightarrow> []
            | Some a \<Rightarrow>
                EvMayUpdate a #
                (if \<not> mayUpdate env (heap s a) then []
                 else EvEdit a obj #
                   (case edit env (heap s a) obj of
                      Threw r \<Rightarrow> []
                    | Edited r \<Rightarrow> [EvSet (baseName env) a, EvPersist [baseName env]])))"
  using assms
  by (auto simp: resource_patch_def resource_edit_def collection_set_def Let_def
      split: option.splits edit_result.splits bool.splits)

theorem patch_json_sequence_witness:
  "isJson sample_env \<and> isJson guarded_env \<and> isJson missing_env \<and> isJson failing_env
   \<and> fst (resource_patch sample_env (JNum 5) sample_state) = NoContent
   \<and> fst (resource_patch sample_env (JStr ''x'') sample_state) = BadRequest
   \<and> fst (resource_patch (guarded_env\<lparr>baseName := ''b''\<rparr>) (JNum 5) sample_state) = Forbidden 1
   \<and> fst (resource_patch missing_env (JNum 5) sample_state) = NotFound
   \<and> fst (resource_patch failing_env (JNum 5) sample_state) = InternalError
   \<and> trace (snd (resource_patch sample_env (JNum 5) sample_state)) =
       [EvMayUpdate 0, EvEdit 0 (JNum 5), EvSet ''a'' 0, EvPersist [''a'']]"
  using patch_json_sequence [of sample_env "JNum 5" sample_state]
    patch_json_sequence [of sample_env "JStr ''x''" sample_state]
    patch_json_sequence [of "guarded_env\<lparr>baseName := ''b''\<rparr>" "JNum 5" sample_state]
    patch_json_sequence [of missing_env "JNum 5" sample_state]
    patch_json_sequence [of failing_env "JNum 5" sample_state]
  by (simp add: sample_env_def guarded_env_def missing_env_def failing_env_def
      sample_state_def sample_edit_def collection_get_def)

text \<open>
  C3, as the code has it. The item GET handler answers NotFound when the identifier is
  absent; else, on a request in a non-default representation, UnsupportedFormat when no
  custom formatter is registered for the resource, and otherwise it hands the request to
  the formatter and decides nothing more; else, on a JSON request, Forbidden when read is
  not authorized and OK with the resource as the body otherwise. The handler itself
  changes neither the collection nor any resource.
\<close>

theorem get_sequence:
  "fst (resource_get env s) =
     (case collection_get s (baseName env) of
        None \<Rightarrow> NotFound
      | Some a \<Rightarrow>
          if \<not> isJson env then
            (case createCustomFn env ''get'' (heap s a) of
               None \<Rightarrow> UnsupportedFormat
             | Some f \<Rightarrow> CustomFn f)
          else if \<not> mayRead env (heap s a) then Forbidden a
          else OK a)
   \<and> heap (snd (resource_get env s)) = heap s
   \<and> fresh (snd (resource_get env s)) = fresh s
   \<and> cmap (snd (resource_get env s)) = cmap s"
  by (auto simp: resource_get_def Let_def split: option.splits)

theorem get_sequence_witness:
  "fst (resource_get sample_env sample_state) = OK 0
   \<and> fst (resource_get (sample_env\<lparr>isJson := False\<rparr>) sample_state) = UnsupportedFormat
   \<and> fst (resource_get html_env sample_state) = CustomFn ''get''
   \<and> fst (resource_get (sample_env\<lparr>mayRead := (\<lambda>r. False)\<rparr>) sample_state) = Forbidden 0
   \<and> fst (resource_get missing_env sample_state) = NotFound
   \<and> resource_at (snd (resource_get sample_env sample_state)) ''a'' = Some 1"
  using get_sequence [of sample_env sample_state]
    get_sequence [of "sample_env\<lparr>isJson := False\<rparr>" sample_state]
    get_sequence [of html_env sample_state]
    get_sequence [of "sample_env\<lparr>mayRead := (\<lambda>r. False)\<rparr>" sample_state]
    get_sequence [of missing_env sample_state]
  by (simp add: sample_env_def html_env_def missing_env_def sample_state_def
      collection_get_def resource_at_def)

text \<open>
  C3 as stated fails: on a request in a non-default representation for which a formatter
  is registered, the stated sequence ends in OK (read being authorized), while the
  handler returns what the formatter returns.
\<close>

theorem get_claimed_counterexample:
  "fst (resource_get html_env sample_state) = CustomFn ''get''
   \<and> get_claimed html_env sample_state = OK 0
   \<and> fst (resource_get html_env sample_state) \<noteq> get_claimed html_env sample_state"
  by (simp add: resource_get_def get_claimed_def html_env_def sample_env_def sample_state_def
      collection_get_def record_event_def)

text \<open>
  C6. For an identifier that is not in the collection, \<^verbatim>\<open>get\<close> returns absent, and the
  item GET and item PATCH handlers answer NotFound at once: the state they return is the
  state they were given, with no call to a formatter, a rights decision, an edit or a
  commit recorded.
\<close>

theorem absent_id_NotFound:
  assumes "baseName env \<notin> fst ` set (cmap s)"
  shows "collection_get s (baseName env) = None
       \<and> resource_get env s = (NotFound, s)
       \<and> resource_patch env obj s = (NotFound, s)"
proof -
  from assms have "map_of (cmap s) (baseName env) = None"
    by (simp add: map_of_eq_None_iff)
  then show ?thesis
    by (simp add: resource_get_def resource_patch_def collection_get_def)
qed

theorem absent_id_NotFound_witness:
  "baseName missing_env \<notin> fst ` set (cmap sample_state)
   \<and> collection_get sample_state (baseName missing_env) = None
   \<and> resource_get missing_env sample_state = (NotFound, sample_state)
   \<and> resource_patch missing_env (JNum 5) sample_state = (NotFound, sample_state)"
proof -
  have h: "baseName missing_env \<notin> fst ` set (cmap sample_state)"
    by (simp add: missing_env_def sample_env_def sample_state_def)
  show ?thesis
    using h absent_id_NotFound [OF h, of "JNum 5"] by simp
qed

text \<open>
  C9. On a request in a non-default representation for a stored resource with a custom
  formatter registered, item GET and item PATCH look the formatter up, invoke it and
  return: these are the only two calls they make, so no read or update authorization is
  asked for, nothing is edited and nothing is committed.
\<close>

theorem custom_format_handoff:
  assumes "\<not> isJson env" and "collection_get s (baseName env) = Some a"
  shows "(createCustomFn env ''get'' (heap s a) = Some f \<longrightarrow>
           resource_get env s =
             (CustomFn f, s\<lparr>trace := trace s @ [EvCreateCustomFn ''get'' a, EvInvokeCustomFn]\<rparr>))
       \<and> (createCustomFn env ''patch'' (heap s a) = Some g \<longrightarrow>
           resource_patch env obj s =
             (CustomFn g, s\<lparr>trace := trace s @ [EvCreateCustomFn ''patch'' a, EvInvokeCustomFn]\<rparr>))"
  using assms by (simp add: resource_get_def resource_patch_def record_event_def)

theorem custom_format_handoff_witness:
  "\<not> isJson locked_html_env
   \<and> collection_get sample_state (baseName locked_html_env) = Some 0
   \<and> createCustomFn locked_html_env ''get'' (heap sample_state 0) = Some ''get''
   \<and> createCustomFn locked_html_env ''patch'' (heap sample_state 0) = Some ''patch''
   \<and> \<not> mayRead locked_html_env (heap sample_state 0)
   \<and> \<not> mayUpdate locked_html_env (heap sample_state 0)
   \<and> fst (resource_get locked_html_env sample_state) = CustomFn ''get''
   \<and> fst (resource_patch locked_html_env (JNum 5) sample_state) = CustomFn ''patch''"
proof -
  have h1: "\<not> isJson locked_html_env"
    by (simp add: locked_html_env_def html_env_def sample_env_def)
  have h2: "collection_get sample_state (baseName locked_html_env) = Some 0"
    by (simp add: locked_html_env_def html_env_def sample_env_def sample_state_def
        collection_get_def)
  show ?thesis
    using h1 h2 custom_format_handoff [OF h1 h2, of "''get''" "''patch''" "JNum 5"]
    by (simp add: locked_html_env_def html_env_def sample_env_def)
qed

text \<open>
  C10. In item PATCH the edit is applied to the resource object that \<^verbatim>\<open>collection.get\<close>
  returned, before \<^verbatim>\<open>collection.set\<close> is called. When the edit succeeds and the
  persistence function then reports an error, the handler answers InternalError and the
  collection still holds that object, in its edited state.
\<close>

theorem patch_no_rollback:
  assumes "isJson env" and "collection_get s (baseName env) = Some a"
    and "mayUpdate env (heap s a)" and "edit env (heap s a) obj = Edited r"
    and "persist env [baseName env]"
  shows "fst (resource_patch env obj s) = InternalError
       \<and> resource_at (snd (resource_patch env obj s)) (baseName env) = Some r
       \<and> trace (snd (resource_patch env obj s)) = trace s @
           [EvMayUpdate a, EvEdit a obj, EvSet (baseName env) a, EvPersist [baseName env]]"
  using assms
  by (simp add: resource_patch_def resource_edit_def collection_set_def collection_get_def
      resource_at_def update_conv' Let_def split: bool.splits)

theorem patch_no_rollback_witness:
  "isJson failing_env
   \<and> collection_get sample_state (baseName failing_env) = Some 0
   \<and> mayUpdate failing_env (heap sample_state 0)
   \<and> edit failing_env (heap sample_state 0) (JNum 5) = Edited 5
   \<and> persist failing_env [baseName failing_env]
   \<and> resource_at sample_state ''a'' = Some 1
   \<and> fst (resource_patch failing_env (JNum 5) sample_state) = InternalError
   \<and> resource_at (snd (resource_patch failing_env (JNum 5) sample_state)) ''a'' = Some 5"
proof -
  have h1: "isJson failing_env" by (simp add: failing_env_def sample_env_def)
  have h2: "collection_get sample_state (baseName failing_env) = Some 0"
    by (simp add: failing_env_def sample_env_def sample_state_def collection_get_def)
  have h3: "mayUpdate failing_env (heap sample_state 0)"
    by (simp add: failing_env_def sample_env_def)
  have h4: "edit failing_env (heap sample_state 0) (JNum 5) = Edited 5"
    by (simp add: failing_env_def sample_env_def sample_state_def sample_edit_def)
  have h5: "persist failing_env [baseName failing_env]"
    by (simp add: failing_env_def sample_env_def)
  show ?thesis
    using h1 h2 h3 h4 h5 patch_no_rollback [OF h1 h2 h3 h4 h5]
    by (simp add: failing_env_def sample_env_def sample_state_def resource_at_def
        collection_get_def)
qed

section \<open>Collection PUT\<close>

text \<open>
  C8, as the code has it. A payload that is neither an object nor an array (null,
  undefined, a boolean, a number, a string) is answered with BadRequest and the handler
  does nothing else: the state, with the record of calls, is the one it was given. Every
  other payload passes the shape check, and the handler goes on to call its
  collaborators; so a mapping from identifier to payload is never rejected by this
  check, and neither is an array, whose indices are then taken as identifiers.
\<close>

theorem putAll_shape_check:
  "(is_primitive data \<longrightarrow> putAll env data s = (BadRequest, s))
   \<and> (\<not> is_primitive data \<longrightarrow> length (trace s) < length (trace (snd (putAll env data s))))
   \<and> (is_id_mapping data \<longrightarrow> \<not> is_primitive data)"
proof (intro conjI impI)
  assume "is_primitive data"
  then show "putAll env data s = (BadRequest, s)"
    by (cases data) (simp_all add: putAll_def)
next
  assume "\<not> is_primitive data"
  then have "truthy data" "typeof data = ''object''" by (cases data; simp)+
  then show "length (trace s) < length (trace (snd (putAll env data s)))"
    by (rule putAll_passes_shape_check)
next
  assume "is_id_mapping data"
  then show "\<not> is_primitive data" by (cases data) simp_all
qed

theorem putAll_shape_check_witness:
  "is_primitive JNull \<and> putAll sample_env JNull sample_state = (BadRequest, sample_state)
   \<and> is_primitive (JNum 7) \<and> putAll sample_env (JNum 7) sample_state = (BadRequest, sample_state)
   \<and> \<not> is_primitive sample_payload \<and> is_id_mapping sample_payload
   \<and> length (trace sample_state)
       < length (trace (snd (putAll sample_env sample_payload sample_state)))"
  using putAll_shape_check [of JNull sample_env sample_state]
    putAll_shape_check [of "JNum 7" sample_env sample_state]
    putAll_shape_check [of sample_payload sample_env sample_state]
  by (simp add: sample_payload_def)

text \<open>
  C8 as stated fails: an array is not a mapping from identifier to per-resource payload,
  yet the handler does not answer BadRequest to \<^verbatim>\<open>[3, 4]\<close>: it instantiates a resource
  for each index and replaces the collection.
\<close>

theorem putAll_array_counterexample:
  "\<not> is_id_mapping array_payload
   \<and> fst (putAll sample_env array_payload sample_state) = NoContent
   \<and> trace (snd (putAll sample_env array_payload sample_state)) =
       [EvInstantiate ''0'' (JNum 3), EvMayCreate 2, EvInstantiate ''1'' (JNum 4), EvMayCreate 3,
        EvMayDelete 0, EvMayDelete 1, EvSetAll [(''0'', 2), (''1'', 3)],
        EvPersist [''0'', ''1'', ''a'', ''b'']]
   \<and> resource_at (snd (putAll sample_env array_payload sample_state)) ''0'' = Some 3
   \<and> putAll sample_env array_payload sample_state \<noteq> (BadRequest, sample_state)"
  by (simp add: array_payload_def sample_env_def sample_state_def sample_construct_def run_defs)

text \<open>
  C1, as the code has it. When collection PUT ends in an error before the commit (any
  answer other than NoContent and InternalError), \<^verbatim>\<open>setAll\<close> has not been called and
  the collection maps the same identifiers to the same resource objects as before. No
  object is modified other than those whose edit the handler has called, and none that
  is not stored under an identifier of the payload; so, in a well-formed state, every
  stored resource whose identifier the payload does not name has the state it had.
  Edits that were made before the failure stay.
\<close>

theorem putAll_error_keeps_mapping:
  assumes "fst (putAll env data s) \<noteq> NoContent" and "fst (putAll env data s) \<noteq> InternalError"
  shows "cmap (snd (putAll env data s)) = cmap s
       \<and> setAll_calls (trace (snd (putAll env data s))) = setAll_calls (trace s)
       \<and> (\<forall>a. a < fresh s \<and> a \<notin> set (edits_of (new_events s (snd (putAll env data s)))) \<longrightarrow>
            heap (snd (putAll env data s)) a = heap s a)
       \<and> (\<forall>a. a < fresh s \<and> (\<forall>i \<in> set (object_keys data). collection_get s i \<noteq> Some a) \<longrightarrow>
            heap (snd (putAll env data s)) a = heap s a)
       \<and> (wf_state s \<longrightarrow>
            (\<forall>i. i \<notin> set (object_keys data) \<longrightarrow>
               resource_at (snd (putAll env data s)) i = resource_at s i))"
proof -
  let ?s' = "snd (putAll env data s)"
  note fr = putAll_error_frame [OF assms]
  note ed = putAll_error_edits [OF assms]
  have "resource_at ?s' i = resource_at s i"
    if wf: "wf_state s" and i: "i \<notin> set (object_keys data)" for i
  proof (cases "collection_get s i")
    case None
    then show ?thesis using fr by (simp add: resource_at_def collection_get_def)
  next
    case (Some a)
    have "a < fresh s" using wf Some by (rule wf_state_lt)
    moreover have "\<forall>j \<in> set (object_keys data). collection_get s j \<noteq> Some a"
      using wf_state_inj [OF wf _ Some] i by blast
    ultimately have "heap ?s' a = heap s a" using fr by blast
    then show ?thesis using fr Some by (simp add: resource_at_def collection_get_def)
  qed
  then show ?thesis using fr ed by blast
qed

theorem putAll_error_keeps_mapping_witness:
  "fst (putAll guarded_env denied_payload sample_state) \<noteq> NoContent
   \<and> fst (putAll guarded_env denied_payload sample_state) \<noteq> InternalError
   \<and> wf_state sample_state
   \<and> ''a'' \<notin> set (object_keys denied_payload)
   \<and> edits_of (new_events sample_state (snd (putAll guarded_env denied_payload sample_state)))
       = []
   \<and> fst (putAll guarded_env denied_payload sample_state) = Forbidden 1
   \<and> cmap (snd (putAll guarded_env denied_payload sample_state)) = cmap sample_state
   \<and> setAll_calls (trace (snd (putAll guarded_env denied_payload sample_state))) = []
   \<and> resource_at (snd (putAll guarded_env denied_payload sample_state)) ''a'' = Some 1
   \<and> heap (snd (putAll guarded_env denied_payload sample_state)) 1 = 2"
proof -
  have out: "fst (putAll guarded_env denied_payload sample_state) = Forbidden 1"
    by (simp add: guarded_env_def denied_payload_def sample_env_def sample_state_def
        sample_construct_def run_defs)
  have h1: "fst (putAll guarded_env denied_payload sample_state) \<noteq> NoContent"
    by (simp add: out)
  have h2: "fst (putAll guarded_env denied_payload sample_state) \<noteq> InternalError"
    by (simp add: out)
  have h3: "wf_state sample_state" by (simp add: wf_state_def sample_state_def)
  have h4: "''a'' \<notin> set (object_keys denied_payload)"
    by (simp add: denied_payload_def object_keys_def)
  have h5: "resource_at sample_state ''a'' = Some 1"
    by (simp add: resource_at_def collection_get_def sample_state_def)
  have h6: "setAll_calls (trace sample_state) = []" by (simp add: sample_state_def)
  have h7: "edits_of (new_events sample_state
              (snd (putAll guarded_env denied_payload sample_state))) = []"
    by (simp add: new_events_def guarded_env_def denied_payload_def sample_env_def
        sample_state_def sample_construct_def run_defs)
  have h8: "(1::nat) < fresh sample_state" "heap sample_state 1 = 2"
    by (simp_all add: sample_state_def)
  from putAll_error_keeps_mapping [OF h1 h2] h3 h4 h7 h8(1)
  have "cmap (snd (putAll guarded_env denied_payload sample_state)) = cmap sample_state"
    and "setAll_calls (trace (snd (putAll guarded_env denied_payload sample_state)))
           = setAll_calls (trace sample_state)"
    and "resource_at (snd (putAll guarded_env denied_payload sample_state)) ''a''
           = resource_at sample_state ''a''"
    and "heap (snd (putAll guarded_env denied_payload sample_state)) 1 = heap sample_state 1"
    by simp_all
  then show ?thesis using out h1 h2 h3 h4 h5 h6 h7 h8 by simp
qed

text \<open>
  C1 as stated fails: with \<^verbatim>\<open>{a: 1, b: 2}\<close> stored and update denied for the resource
  under \<^verbatim>\<open>b\<close>, the payload \<^verbatim>\<open>{a: 10, b: 20}\<close> is answered with Forbidden, and the
  resource under \<^verbatim>\<open>a\<close>, edited in place before \<^verbatim>\<open>b\<close> was looked at, holds 10.
\<close>

theorem putAll_not_atomic_counterexample:
  "fst (putAll guarded_env update_payload sample_state) = Forbidden 1
   \<and> resource_at sample_state ''a'' = Some 1
   \<and> resource_at (snd (putAll guarded_env update_payload sample_state)) ''a'' = Some 10
   \<and> resource_at (snd (putAll guarded_env update_payload sample_state)) ''a''
       \<noteq> resource_at sample_state ''a''"
  by (simp add: guarded_env_def update_payload_def sample_env_def sample_state_def
      sample_edit_def run_defs)

subsection \<open>The commit\<close>

text \<open>
  In a well-formed state, for a payload that is an object with distinct keys:
  \<^verbatim>\<open>setAll\<close> is called, exactly once, if and only if every identifier of the payload
  passes its per-item processing and every identifier of the collection that the payload
  does not name passes the delete-authorization. The map handed to \<^verbatim>\<open>setAll\<close> has as
  keys the payload's identifiers other than \<^verbatim>\<open>__proto__\<close>. Otherwise \<^verbatim>\<open>setAll\<close> is
  not called and the answer is the one that goes with the failure: for the first
  identifier of the payload that fails, BadRequest when its payload is rejected and
  Forbidden when the right is denied; Forbidden when every identifier passes and a
  deletion is denied.
\<close>

theorem putAll_setAll_iff:
  assumes "wf_state s" and "truthy data" and "typeof data = ''object''"
    and "distinct (object_keys data)"
  shows "(list_all (item_ok env s data) (object_keys data) \<and> deletes_ok env s data \<longrightarrow>
            (\<exists>m. setAll_calls (trace (snd (putAll env data s))) = setAll_calls (trace s) @ [m]
                 \<and> fst ` set m = set (object_keys data) - {''__proto__''}))
       \<and> (\<not> (list_all (item_ok env s data) (object_keys data) \<and> deletes_ok env s data) \<longrightarrow>
            setAll_calls (trace (snd (putAll env data s))) = setAll_calls (trace s)
            \<and> (fst (putAll env data s) = BadRequest
               \<or> (\<exists>a. fst (putAll env data s) = Forbidden a)))
       \<and> (\<forall>i f. find (\<lambda>i. \<not> item_ok env s data i) (object_keys data) = Some i
                \<and> item_fault env s data i = Some f \<longrightarrow>
              answers_fault f (fst (putAll env data s)))
       \<and> (list_all (item_ok env s data) (object_keys data) \<and> \<not> deletes_ok env s data \<longrightarrow>
            (\<exists>a. fst (putAll env data s) = Forbidden a))"
proof (intro conjI impI allI)
  assume ok: "list_all (item_ok env s data) (object_keys data) \<and> deletes_ok env s data"
  from putAll_success [OF assms conjunct1 [OF ok] conjunct2 [OF ok]]
  obtain m s' where "putAll env data s =
      (if persist env (affected_ids (cmap s) m) then InternalError else NoContent, s')"
    and "fst ` set m = set (object_keys data) - {''__proto__''}"
    and "setAll_calls (trace s') = setAll_calls (trace s) @ [m]"
    by (elim exE conjE) (rule that)
  then show "\<exists>m. setAll_calls (trace (snd (putAll env data s))) = setAll_calls (trace s) @ [m]
           \<and> fst ` set m = set (object_keys data) - {''__proto__''}"
    by (intro exI [of _ m]) simp
next
  assume bad: "\<not> (list_all (item_ok env s data) (object_keys data) \<and> deletes_ok env s data)"
  from putAll_failure [OF assms bad]
  show "setAll_calls (trace (snd (putAll env data s))) = setAll_calls (trace s)" by simp
  from putAll_failure [OF assms bad]
  show "fst (putAll env data s) = BadRequest \<or> (\<exists>a. fst (putAll env data s) = Forbidden a)"
    by simp
next
  fix i f
  assume "find (\<lambda>i. \<not> item_ok env s data i) (object_keys data) = Some i
            \<and> item_fault env s data i = Some f"
  then show "answers_fault f (fst (putAll env data s))"
    using putAll_first_fault [OF assms] by blast
next
  assume "list_all (item_ok env s data) (object_keys data) \<and> \<not> deletes_ok env s data"
  then show "\<exists>a. fst (putAll env data s) = Forbidden a"
    using putAll_delete_denied [OF assms] by blast
qed

theorem putAll_setAll_iff_witness:
  "wf_state sample_state \<and> truthy sample_payload \<and> typeof sample_payload = ''object''
   \<and> distinct (object_keys sample_payload)
   \<and> list_all (item_ok sample_env sample_state sample_payload) (object_keys sample_payload)
   \<and> deletes_ok sample_env sample_state sample_payload
   \<and> (\<exists>m. setAll_calls (trace (snd (putAll sample_env sample_payload sample_state)))
             = setAll_calls (trace sample_state) @ [m]
          \<and> fst ` set m = set (object_keys sample_payload) - {''__proto__''})
   \<and> \<not> (list_all (item_ok guarded_env sample_state sample_payload) (object_keys sample_payload)
        \<and> deletes_ok guarded_env sample_state sample_payload)
   \<and> setAll_calls (trace (snd (putAll guarded_env sample_payload sample_state)))
       = setAll_calls (trace sample_state)
   \<and> find (\<lambda>i. \<not> item_ok guarded_env sample_state sample_payload i)
        (object_keys sample_payload) = Some ''b''
   \<and> item_fault guarded_env sample_state sample_payload ''b'' = Some Denied
   \<and> answers_fault Denied (fst (putAll guarded_env sample_payload sample_state))"
proof -
  have h1: "wf_state sample_state" by (simp add: wf_state_def sample_state_def)
  have h2: "truthy sample_payload" by (simp add: sample_payload_def)
  have h3: "typeof sample_payload = ''object''" by (simp add: sample_payload_def)
  have h4: "distinct (object_keys sample_payload)"
    by (simp add: sample_payload_def object_keys_def)
  have h5: "list_all (item_ok sample_env sample_state sample_payload)
              (object_keys sample_payload)"
    by (simp add: item_ok_def sample_payload_def sample_env_def sample_state_def
        sample_edit_def sample_construct_def object_keys_def prop_get_def collection_get_def)
  have h6: "deletes_ok sample_env sample_state sample_payload"
    by (simp add: deletes_ok_def sample_env_def sample_state_def)
  have h7: "\<not> (list_all (item_ok guarded_env sample_state sample_payload)
                 (object_keys sample_payload)
               \<and> deletes_ok guarded_env sample_state sample_payload)"
    by (simp add: item_ok_def guarded_env_def sample_payload_def sample_env_def sample_state_def
        object_keys_def prop_get_def collection_get_def)
  have h8: "find (\<lambda>i. \<not> item_ok guarded_env sample_state sample_payload i)
              (object_keys sample_payload) = Some ''b''"
    by (simp add: item_ok_def guarded_env_def sample_payload_def sample_env_def sample_state_def
        object_keys_def prop_get_def collection_get_def)
  have h9: "item_fault guarded_env sample_state sample_payload ''b'' = Some Denied"
    by (simp add: item_fault_def guarded_env_def sample_payload_def sample_env_def
        sample_state_def prop_get_def collection_get_def)
  show ?thesis
    using h1 h2 h3 h4 h5 h6 h7 h8 h9
      putAll_setAll_iff [OF h1 h2 h3 h4, of sample_env]
      putAll_setAll_iff [OF h1 h2 h3 h4, of guarded_env]
    by blast
qed

text \<open>
  When moreover the answer is NoContent, the collection then holds the payload's
  identifiers other than \<^verbatim>\<open>__proto__\<close>, each with the resource constructed from or
  edited by its payload, and nothing else.
\<close>

theorem putAll_replaces_collection:
  assumes "wf_state s" and "truthy data" and "typeof data = ''object''"
    and "distinct (object_keys data)"
    and "list_all (item_ok env s data) (object_keys data)" and "deletes_ok env s data"
    and "fst (putAll env data s) = NoContent"
  shows "fst ` set (cmap (snd (putAll env data s))) = set (object_keys data) - {''__proto__''}
       \<and> (\<forall>i. resource_at (snd (putAll env data s)) i =
              (if i \<in> set (object_keys data) \<and> i \<noteq> ''__proto__''
               then put_result env s data i else None))"
proof -
  from putAll_success [OF assms(1-6)] obtain m s' where
    out: "putAll env data s =
            (if persist env (affected_ids (cmap s) m) then InternalError else NoContent, s')"
    and m: "cmap s' = m" "fst ` set m = set (object_keys data) - {''__proto__''}"
    and vals: "\<forall>i \<in> set (object_keys data). i \<noteq> ''__proto__'' \<longrightarrow>
                 resource_at s' i = put_result env s data i"
    by (elim exE conjE) (rule that)
  have "resource_at s' i = None" if "i \<notin> set (object_keys data) \<or> i = ''__proto__''" for i
  proof -
    from that m have "i \<notin> fst ` set (cmap s')" by auto
    then show ?thesis by (simp add: resource_at_def collection_get_def map_of_eq_None_iff)
  qed
  then show ?thesis using out m vals by auto
qed

theorem putAll_replaces_collection_witness:
  "wf_state sample_state \<and> truthy sample_payload \<and> typeof sample_payload = ''object''
   \<and> distinct (object_keys sample_payload)
   \<and> list_all (item_ok sample_env sample_state sample_payload) (object_keys sample_payload)
   \<and> deletes_ok sample_env sample_state sample_payload
   \<and> fst (putAll sample_env sample_payload sample_state) = NoContent
   \<and> resource_at sample_state ''a'' = Some 1 \<and> resource_at sample_state ''b'' = Some 2
   \<and> fst ` set (cmap (snd (putAll sample_env sample_payload sample_state))) = {''b'', ''c''}
   \<and> resource_at (snd (putAll sample_env sample_payload sample_state)) ''a'' = None
   \<and> resource_at (snd (putAll sample_env sample_payload sample_state)) ''b'' = Some 3
   \<and> resource_at (snd (putAll sample_env sample_payload sample_state)) ''c'' = Some 4"
proof -
  have h1: "wf_state sample_state" by (simp add: wf_state_def sample_state_def)
  have h2: "truthy sample_payload" by (simp add: sample_payload_def)
  have h3: "typeof sample_payload = ''object''" by (simp add: sample_payload_def)
  have h4: "distinct (object_keys sample_payload)"
    by (simp add: sample_payload_def object_keys_def)
  have h5: "list_all (item_ok sample_env sample_state sample_payload)
              (object_keys sample_payload)"
    by (simp add: item_ok_def sample_payload_def sample_env_def sample_state_def
        sample_edit_def sample_construct_def object_keys_def prop_get_def collection_get_def)
  have h6: "deletes_ok sample_env sample_state sample_payload"
    by (simp add: deletes_ok_def sample_env_def sample_state_def)
  have h7: "fst (putAll sample_env sample_payload sample_state) = NoContent"
    by (simp add: sample_payload_def sample_env_def sample_state_def sample_edit_def
        sample_construct_def run_defs)
  have before: "resource_at sample_state ''a'' = Some 1" "resource_at sample_state ''b'' = Some 2"
    by (simp_all add: resource_at_def collection_get_def sample_state_def)
  have keys: "set (object_keys sample_payload) - {''__proto__''} = {''b'', ''c''}"
    "set (object_keys sample_payload) = {''b'', ''c''}"
    by (auto simp: sample_payload_def object_keys_def)
  have res: "put_result sample_env sample_state sample_payload ''b'' = Some 3"
    "put_result sample_env sample_state sample_payload ''c'' = Some 4"
    by (simp_all add: put_result_def sample_payload_def sample_env_def sample_state_def
        sample_edit_def sample_construct_def prop_get_def collection_get_def)
  note t = putAll_replaces_collection [OF h1 h2 h3 h4 h5 h6 h7]
  from t
  have "fst ` set (cmap (snd (putAll sample_env sample_payload sample_state))) = {''b'', ''c''}"
    by (simp add: keys)
  moreover from t
  have "resource_at (snd (putAll sample_env sample_payload sample_state)) ''a'' = None"
    "resource_at (snd (putAll sample_env sample_payload sample_state)) ''b'' = Some 3"
    "resource_at (snd (putAll sample_env sample_payload sample_state)) ''c'' = Some 4"
    by (simp_all add: keys res)
  ultimately show ?thesis using h1 h2 h3 h4 h5 h6 h7 before by simp
qed

text \<open>
  C4. The map handed to \<^verbatim>\<open>setAll\<close> should contain exactly the payload's identifiers;
  for the payload \<^verbatim>\<open>{"__proto__": 5}\<close> on the collection \<^verbatim>\<open>{a: 1, b: 2}\<close> it does
  not. The identifier passes its per-item processing (a resource is constructed and its
  creation authorized) and both deletions are authorized, so \<^verbatim>\<open>setAll\<close> is called,
  once; but the assignment \<^verbatim>\<open>resources[id] = resource\<close> has added no key, and the
  map handed over is empty.
\<close>

theorem putAll_proto_setAll_map:
  "object_keys proto_payload = [''__proto__'']
   \<and> list_all (item_ok sample_env sample_state proto_payload) (object_keys proto_payload)
   \<and> deletes_ok sample_env sample_state proto_payload
   \<and> trace (snd (putAll sample_env proto_payload sample_state)) =
       [EvInstantiate ''__proto__'' (JNum 5), EvMayCreate 2, EvMayDelete 0, EvMayDelete 1,
        EvSetAll [], EvPersist [''a'', ''b'']]
   \<and> setAll_calls (trace (snd (putAll sample_env proto_payload sample_state))) = [[]]"
  by (simp add: item_ok_def deletes_ok_def proto_payload_def sample_env_def sample_state_def
      sample_construct_def run_defs)

theorem putAll_proto_setAll_map_witness:
  "''__proto__'' \<in> set (object_keys proto_payload)
   \<and> (\<exists>m. setAll_calls (trace (snd (putAll sample_env proto_payload sample_state))) = [m]
          \<and> ''__proto__'' \<notin> fst ` set m
          \<and> fst ` set m \<noteq> set (object_keys proto_payload))"
  using putAll_proto_setAll_map by simp

text \<open>
  C5. After a collection PUT whose checks all pass and whose notification succeeds, the
  collection should hold exactly the payload's identifiers; for the payload
  \<^verbatim>\<open>{"__proto__": 5}\<close> on the collection \<^verbatim>\<open>{a: 1, b: 2}\<close> it does not. The answer is
  NoContent, \<^verbatim>\<open>a\<close> and \<^verbatim>\<open>b\<close> are gone, and the collection is empty: the resource
  constructed for \<^verbatim>\<open>__proto__\<close> is not in it.
\<close>

theorem putAll_proto_collection:
  "set (object_keys proto_payload) = {''__proto__''}
   \<and> fst (putAll sample_env proto_payload sample_state) = NoContent
   \<and> cmap (snd (putAll sample_env proto_payload sample_state)) = []
   \<and> resource_at (snd (putAll sample_env proto_payload sample_state)) ''__proto__'' = None
   \<and> put_result sample_env sample_state proto_payload ''__proto__'' = Some 5"
  by (simp add: put_result_def proto_payload_def sample_env_def sample_state_def
      sample_construct_def run_defs)

theorem putAll_proto_collection_witness:
  "fst (putAll sample_env proto_payload sample_state) = NoContent
   \<and> fst ` set (cmap (snd (putAll sample_env proto_payload sample_state)))
       \<noteq> set (object_keys proto_payload)"
  using putAll_proto_collection by simp

text \<open>
  C7. An item PATCH on a JSON request that has passed its checks (resource present,
  update authorized, edit returned normally), and a collection PUT that has passed all
  of its checks, notify the persistence function once, and answer InternalError when it
  reports an error for that notification and NoContent when it reports none.
\<close>

theorem notifier_failure_propagation:
  "(isJson env \<and> collection_get s (baseName env) = Some a \<and> mayUpdate env (heap s a)
      \<and> edit env (heap s a) obj = Edited r \<longrightarrow>
      persist_calls (trace (snd (resource_patch env obj s)))
        = persist_calls (trace s) @ [[baseName env]]
      \<and> fst (resource_patch env obj s) =
        (if persist env [baseName env] then InternalError else NoContent))
   \<and> (wf_state s \<and> truthy data \<and> typeof data = ''object'' \<and> distinct (object_keys data)
      \<and> list_all (item_ok env s data) (object_keys data) \<and> deletes_ok env s data \<longrightarrow>
      (\<exists>ids. persist_calls (trace (snd (putAll env data s))) = persist_calls (trace s) @ [ids]
            \<and> fst (putAll env data s) = (if persist env ids then InternalError else NoContent)))"
proof (intro conjI impI)
  assume h: "isJson env \<and> collection_get s (baseName env) = Some a \<and> mayUpdate env (heap s a)
      \<and> edit env (heap s a) obj = Edited r"
  then show "persist_calls (trace (snd (resource_patch env obj s)))
        = persist_calls (trace s) @ [[baseName env]]"
    by (simp add: resource_patch_def resource_edit_def collection_set_def Let_def
        split: bool.splits)
  from h show "fst (resource_patch env obj s) =
        (if persist env [baseName env] then InternalError else NoContent)"
    by (simp add: resource_patch_def resource_edit_def collection_set_def Let_def
        split: bool.splits)
next
  assume h: "wf_state s \<and> truthy data \<and> typeof data = ''object'' \<and> distinct (object_keys data)
      \<and> list_all (item_ok env s data) (object_keys data) \<and> deletes_ok env s data"
  then have "wf_state s" "truthy data" "typeof data = ''object''" "distinct (object_keys data)"
    "list_all (item_ok env s data) (object_keys data)" "deletes_ok env s data" by simp_all
  from putAll_success [OF this] obtain m s' where
    out: "putAll env data s =
            (if persist env (affected_ids (cmap s) m) then InternalError else NoContent, s')"
    and ev: "persist_calls (trace s') = persist_calls (trace s) @ [affected_ids (cmap s) m]"
    by (elim exE conjE) (rule that)
  then show "\<exists>ids. persist_calls (trace (snd (putAll env data s))) = persist_calls (trace s) @ [ids]
            \<and> fst (putAll env data s) = (if persist env ids then InternalError else NoContent)"
    by (intro exI [of _ "affected_ids (cmap s) m"]) simp
qed

theorem notifier_failure_propagation_witness:
  "isJson failing_env \<and> collection_get sample_state (baseName failing_env) = Some 0
   \<and> mayUpdate failing_env (heap sample_state 0)
   \<and> edit failing_env (heap sample_state 0) (JNum 5) = Edited 5
   \<and> wf_state sample_state \<and> truthy sample_payload \<and> typeof sample_payload = ''object''
   \<and> distinct (object_keys sample_payload)
   \<and> list_all (item_ok failing_env sample_state sample_payload) (object_keys sample_payload)
   \<and> deletes_ok failing_env sample_state sample_payload
   \<and> fst (resource_patch failing_env (JNum 5) sample_state) = InternalError
   \<and> fst (putAll failing_env sample_payload sample_state) = InternalError"
proof -
  have p: "isJson failing_env \<and> collection_get sample_state (baseName failing_env) = Some 0
      \<and> mayUpdate failing_env (heap sample_state 0)
      \<and> edit failing_env (heap sample_state 0) (JNum 5) = Edited 5"
    by (simp add: failing_env_def sample_env_def sample_state_def sample_edit_def
        collection_get_def)
  have q: "wf_state sample_state \<and> truthy sample_payload \<and> typeof sample_payload = ''object''
      \<and> distinct (object_keys sample_payload)
      \<and> list_all (item_ok failing_env sample_state sample_payload) (object_keys sample_payload)
      \<and> deletes_ok failing_env sample_state sample_payload"
    by (simp add: wf_state_def item_ok_def deletes_ok_def failing_env_def sample_payload_def
        sample_env_def sample_state_def sample_edit_def sample_construct_def object_keys_def
        prop_get_def collection_get_def)
  have always: "\<And>ids. persist failing_env ids" by (simp add: failing_env_def sample_env_def)
  note t = notifier_failure_propagation [where env = failing_env and s = sample_state
      and a = 0 and obj = "JNum 5" and r = 5 and data = sample_payload]
  from t p always have "fst (resource_patch failing_env (JNum 5) sample_state) = InternalError"
    by simp
  moreover from t q always
  have "fst (putAll failing_env sample_payload sample_state) = InternalError"
    by auto
  ultimately show ?thesis using p q by simp
qed

end
